theory Spec2Isabelle
  imports Main "HOL-Library.FSet"
begin

section \<open>Text primitives\<close>

text \<open>
  Python strings are modelled as \<open>string\<close>; a \<open>char\<close> stands for the code point of the
  same number, so the model covers the texts whose code points are below 256. On these,
  \<open>str.isspace\<close> (used by \<open>strip()\<close> and by the pattern \<open>\s\<close>) holds for the twelve code
  points below, \<open>\d\<close> holds for the ASCII digits only, and \<open>str.lower\<close> moves the ASCII
  and the Latin-1 capital letters by 32.
\<close>

definition is_space :: "char \<Rightarrow> bool" where
  "is_space c \<longleftrightarrow> (of_char c :: nat) \<in> {9, 10, 11, 12, 13, 28, 29, 30, 31, 32, 133, 160}"

definition is_digit :: "char \<Rightarrow> bool" where
  "is_digit c \<longleftrightarrow> (48::nat) \<le> of_char c \<and> (of_char c :: nat) \<le> 57"

definition is_alpha :: "char \<Rightarrow> bool" where
  \<comment> \<open>the class \<open>[A-Za-z]\<close>\<close>
  "is_alpha c \<longleftrightarrow> ((65::nat) \<le> of_char c \<and> (of_char c :: nat) \<le> 90)
     \<or> ((97::nat) \<le> of_char c \<and> (of_char c :: nat) \<le> 122)"

definition lower_char :: "char \<Rightarrow> char" where
  "lower_char c =
     (let n = (of_char c :: nat)
      in if (65 \<le> n \<and> n \<le> 90) \<or> (192 \<le> n \<and> n \<le> 222 \<and> n \<noteq> 215)
         then char_of (n + 32) else c)"

definition lower :: "string \<Rightarrow> string" where
  "lower s = map lower_char s"

definition lstrip :: "string \<Rightarrow> string" where
  "lstrip s = dropWhile is_space s"

definition rstrip :: "string \<Rightarrow> string" where
  "rstrip s = rev (dropWhile is_space (rev s))"

definition strip :: "string \<Rightarrow> string" where
  "strip s = rstrip (lstrip s)"

definition rstrip_char :: "char \<Rightarrow> string \<Rightarrow> string" where
  \<comment> \<open>\<open>s.rstrip(":")\<close>: every trailing occurrence of the one character goes\<close>
  "rstrip_char c s = rev (dropWhile (\<lambda>x. x = c) (rev s))"

fun startswith :: "string \<Rightarrow> string \<Rightarrow> bool" where
  "startswith s [] = True"
| "startswith [] (p # ps) = False"
| "startswith (c # cs) (p # ps) = (c = p \<and> startswith cs ps)"

definition endswith :: "string \<Rightarrow> string \<Rightarrow> bool" where
  "endswith s p = startswith (rev s) (rev p)"

fun contains :: "string \<Rightarrow> string \<Rightarrow> bool" where
  \<comment> \<open>\<open>sub in s\<close>\<close>
  "contains [] sub = (sub = [])"
| "contains (c # cs) sub = (startswith (c # cs) sub \<or> contains cs sub)"

definition split_first :: "char \<Rightarrow> string \<Rightarrow> string \<times> string" where
  \<comment> \<open>\<open>s.split(c, 1)\<close> for an \<open>s\<close> that contains \<open>c\<close>: the text before the first \<open>c\<close> and
      the text after it\<close>
  "split_first c s = (takeWhile (\<lambda>x. x \<noteq> c) s, tl (dropWhile (\<lambda>x. x \<noteq> c) s))"

fun collapse_ws :: "bool \<Rightarrow> string \<Rightarrow> string" where
  \<comment> \<open>\<open>re.sub(r"\s+", " ", x)\<close>: each maximal run of white space becomes one space; the
      flag says that the run the scan is in has been replaced already\<close>
  "collapse_ws in_run [] = []"
| "collapse_ws in_run (c # cs) =
     (if is_space c then (if in_run then collapse_ws True cs else CHR '' '' # collapse_ws True cs)
      else c # collapse_ws False cs)"

definition normalize_text :: "string \<Rightarrow> string" where
  "normalize_text x = (if x = [] then [] else strip (collapse_ws False x))"

section \<open>Parsed documents\<close>

text \<open>
  A parsed page is the tree the HTML parser hands over: text nodes and elements with a
  tag name, attributes and children. The queries below are the ones of the parser library
  that the scraper calls: \<open>find_all\<close> and \<open>find\<close> search the descendants in document
  order, \<open>get_text\<close> joins the text nodes below an element.
\<close>

datatype node = Text string | Elem string "(string \<times> string) list" "node list"

fun descendants :: "node \<Rightarrow> node list" where
  "descendants (Text s) = []"
| "descendants (Elem n a cs) = concat (map (\<lambda>c. c # descendants c) cs)"

fun is_tag :: "string list \<Rightarrow> node \<Rightarrow> bool" where
  "is_tag names (Text s) = False"
| "is_tag names (Elem n a cs) = (n \<in> set names)"

definition find_all :: "string list \<Rightarrow> node \<Rightarrow> node list" where
  "find_all names nd = filter (is_tag names) (descendants nd)"

definition find_first :: "string list \<Rightarrow> node \<Rightarrow> node option" where
  \<comment> \<open>\<open>soup.find(name)\<close>\<close>
  "find_first names nd = (case find_all names nd of [] \<Rightarrow> None | x # xs \<Rightarrow> Some x)"

fun strings :: "node \<Rightarrow> string list" where
  "strings (Text s) = [s]"
| "strings (Elem n a cs) = concat (map strings cs)"

fun join :: "string \<Rightarrow> string list \<Rightarrow> string" where
  "join sep [] = []"
| "join sep [s] = s"
| "join sep (s # t # ts) = s @ sep @ join sep (t # ts)"

definition get_text :: "node \<Rightarrow> string" where
  \<comment> \<open>\<open>tag.get_text()\<close>\<close>
  "get_text nd = concat (strings nd)"

definition get_text_sep :: "string \<Rightarrow> node \<Rightarrow> string" where
  \<comment> \<open>\<open>tag.get_text(sep)\<close>\<close>
  "get_text_sep sep nd = join sep (strings nd)"

definition get_text_strip :: "node \<Rightarrow> string" where
  \<comment> \<open>\<open>tag.get_text(strip=True)\<close>: each text node stripped, the empty ones left out\<close>
  "get_text_strip nd = concat (filter (\<lambda>s. s \<noteq> []) (map strip (strings nd)))"

fun node_string :: "node \<Rightarrow> string option" where
  \<comment> \<open>\<open>tag.string\<close>: the text of a sole child, looked for through sole children\<close>
  "node_string (Text s) = Some s"
| "node_string (Elem n a [c]) = node_string c"
| "node_string (Elem n a cs) = None"

fun attr :: "string \<Rightarrow> node \<Rightarrow> string option" where
  \<comment> \<open>\<open>tag.get(name)\<close>\<close>
  "attr name (Text s) = None"
| "attr name (Elem n a cs) = map_of a name"

section \<open>The label-value harvester\<close>

type_synonym pairs = "string \<rightharpoonup> string"

definition label_key :: "string \<Rightarrow> string" where
  \<comment> \<open>\<open>normalize_text(t).lower().rstrip(":")\<close>\<close>
  "label_key t = rstrip_char CHR '':'' (lower (normalize_text t))"

fun store_pairs :: "pairs \<Rightarrow> (string \<times> string) list \<Rightarrow> pairs" where
  \<comment> \<open>the body shared by the definition-list loop and the table loop, over the texts of
      the label element and the value element: \<open>if k: pairs[k] = v\<close>\<close>
  "store_pairs m [] = m"
| "store_pairs m ((kt, vt) # rest) =
     (let k = label_key kt; v = normalize_text vt
      in store_pairs (if k \<noteq> [] then m(k \<mapsto> v) else m) rest)"

definition dl_texts :: "node \<Rightarrow> (string \<times> string) list" where
  \<comment> \<open>\<open>for dl in soup.find_all("dl"): for dt, dd in zip(dl.find_all("dt"), dl.find_all("dd"))\<close>\<close>
  "dl_texts soup =
     concat (map (\<lambda>dl. zip (map get_text (find_all [''dt''] dl)) (map get_text (find_all [''dd''] dl)))
       (find_all [''dl''] soup))"

definition row_texts :: "node \<Rightarrow> (string \<times> string) list" where
  \<comment> \<open>a row with at least two cells gives its first two cells\<close>
  "row_texts row =
     (case find_all [''th'', ''td''] row of
        c0 # c1 # cols \<Rightarrow> [(get_text c0, get_text c1)]
      | _ \<Rightarrow> [])"

definition table_texts :: "node \<Rightarrow> (string \<times> string) list" where
  "table_texts soup =
     concat (map (\<lambda>table. concat (map row_texts (find_all [''tr''] table))) (find_all [''table''] soup))"

definition setdefault :: "pairs \<Rightarrow> string \<Rightarrow> string \<Rightarrow> pairs" where
  "setdefault m k v = (case m k of None \<Rightarrow> m(k \<mapsto> v) | Some old \<Rightarrow> m)"

definition free_key :: "string \<Rightarrow> string" where
  "free_key text = strip (lower (fst (split_first CHR '':'' text)))"

definition free_value :: "string \<Rightarrow> string" where
  "free_value text = strip (snd (split_first CHR '':'' text))"

fun free_text_pairs :: "pairs \<Rightarrow> string list \<Rightarrow> pairs" where
  \<comment> \<open>the paragraph loop, over the texts of the \<open>p\<close> and \<open>li\<close> elements\<close>
  "free_text_pairs m [] = m"
| "free_text_pairs m (t # ts) =
     (let text = normalize_text t
      in if CHR '':'' \<in> set text
         then (let k = free_key text; v = free_value text
               in free_text_pairs (if length k < 40 \<and> length v > 0 then setdefault m k v else m) ts)
         else free_text_pairs m ts)"

definition para_texts :: "node \<Rightarrow> string list" where
  "para_texts soup = map get_text (find_all [''p'', ''li''] soup)"

definition find_label_value_pairs :: "node \<Rightarrow> pairs" where
  "find_label_value_pairs soup =
     free_text_pairs (store_pairs (store_pairs Map.empty (dl_texts soup)) (table_texts soup))
       (para_texts soup)"


section \<open>Pattern extractors\<close>

text \<open>
  Both patterns of the scraper are sequences of character classes, each with a greedy
  repetition range. \<open>rmatch\<close> is the backtracking match of such a pattern at the start
  of a text: every item first takes as many characters as it can and gives them back one
  by one while the rest of the pattern fails. The result is the length of the match.
\<close>

type_synonym item = "(char \<Rightarrow> bool) \<times> nat \<times> nat option"

fun first_some :: "'a option list \<Rightarrow> 'a option" where
  "first_some [] = None"
| "first_some (None # xs) = first_some xs"
| "first_some (Some x # xs) = Some x"

fun rmatch :: "item list \<Rightarrow> string \<Rightarrow> nat option" where
  "rmatch [] s = Some 0"
| "rmatch ((P, lo, hi) # items) s =
     (let avail = length (takeWhile P s);
          top = (case hi of None \<Rightarrow> avail | Some h \<Rightarrow> min h avail)
      in first_some (map (\<lambda>k. map_option (\<lambda>n. k + n) (rmatch items (drop k s)))
           (rev [lo ..< Suc top])))"

fun findall :: "item list \<Rightarrow> string \<Rightarrow> string list" where
  \<comment> \<open>\<open>re.findall\<close> for a pattern without groups that matches no empty text: the matches
      from left to right, the search going on where the last match ended\<close>
  "findall re [] = []"
| "findall re (c # cs) =
     (case rmatch re (c # cs) of
        None \<Rightarrow> findall re cs
      | Some n \<Rightarrow> take n (c # cs) # findall re (drop (n - 1) cs))"

definition is_alnum :: "char \<Rightarrow> bool" where
  "is_alnum c \<longleftrightarrow> is_alpha c \<or> is_digit c"

definition email_local :: "char \<Rightarrow> bool" where
  \<comment> \<open>\<open>[A-Za-z0-9._%+-]\<close>\<close>
  "email_local c \<longleftrightarrow> is_alnum c \<or> c \<in> set ''._%+-''"

definition email_domain :: "char \<Rightarrow> bool" where
  \<comment> \<open>\<open>[A-Za-z0-9.-]\<close>\<close>
  "email_domain c \<longleftrightarrow> is_alnum c \<or> c \<in> set ''.-''"

definition email_re :: "item list" where
  \<comment> \<open>\<open>[A-Za-z0-9._%+-]+@[A-Za-z0-9.-]+\.[A-Za-z]{2,}\<close>\<close>
  "email_re =
     [(email_local, 1, None), (\<lambda>c. c = CHR ''@'', 1, Some 1), (email_domain, 1, None),
      (\<lambda>c. c = CHR ''.'', 1, Some 1), (is_alpha, 2, None)]"

definition extract_emails :: "string \<Rightarrow> string set" where
  \<comment> \<open>\<open>list(set(...))\<close>: the order of the list is not determined, so the model keeps the set\<close>
  "extract_emails text = set (findall email_re text)"

definition phone_inner :: "char \<Rightarrow> bool" where
  \<comment> \<open>\<open>[\d ()-]\<close>\<close>
  "phone_inner c \<longleftrightarrow> is_digit c \<or> c \<in> set '' ()-''"

definition phone_re :: "item list" where
  \<comment> \<open>\<open>\+?\d[\d ()-]{5,}\d\<close>\<close>
  "phone_re =
     [(\<lambda>c. c = CHR ''+'', 0, Some 1), (is_digit, 1, Some 1), (phone_inner, 5, None),
      (is_digit, 1, Some 1)]"

definition insert_key :: "'a list \<Rightarrow> 'a \<Rightarrow> 'a list" where
  \<comment> \<open>a dictionary's keys in insertion order: a key that is present keeps its place\<close>
  "insert_key ks k = (if k \<in> set ks then ks else ks @ [k])"

definition fromkeys :: "'a list \<Rightarrow> 'a list" where
  \<comment> \<open>\<open>list(dict.fromkeys(xs))\<close>\<close>
  "fromkeys xs = foldl insert_key [] xs"

definition clean_phone :: "string \<Rightarrow> string" where
  \<comment> \<open>\<open>re.sub(r"\s+", " ", p).strip()\<close>\<close>
  "clean_phone p = strip (collapse_ws False p)"

definition extract_phones :: "string \<Rightarrow> string list" where
  "extract_phones text = fromkeys (map clean_phone (findall phone_re text))"

section \<open>URLs and links\<close>

text \<open>
  The two functions of the URL library that the scraper calls are parameters of the
  model. \<open>netloc_of u\<close> is \<open>urlparse(u).netloc\<close> and \<open>urljoin_of base href\<close> is
  \<open>urljoin(base, href)\<close>; both raise \<open>ValueError\<close> on some malformed URLs, which is the
  value \<open>None\<close>. \<open>is_same_domain\<close> catches the exception, \<open>get_links\<close> and
  \<open>extract_profile\<close> let it pass to their caller.
\<close>

datatype error = ValueError

record urllib =
  netloc_of :: "string \<Rightarrow> string option"
  urljoin_of :: "string \<Rightarrow> string \<Rightarrow> string option"

definition is_same_domain :: "urllib \<Rightarrow> string \<Rightarrow> string \<Rightarrow> bool" where
  "is_same_domain L domain url =
     (case netloc_of L url of
        None \<Rightarrow> False
      | Some nl \<Rightarrow> nl = domain \<or> endswith nl (CHR ''.'' # domain))"

fun collect_links :: "urllib \<Rightarrow> string \<Rightarrow> string \<Rightarrow> string list \<Rightarrow> error + string list" where
  \<comment> \<open>the loop of \<open>get_links\<close> over the \<open>href\<close> values of the anchors\<close>
  "collect_links L domain base_url [] = Inr []"
| "collect_links L domain base_url (h # hs) =
     (let href = strip h
      in if startswith href ''mailto:'' \<or> startswith href ''tel:''
         then collect_links L domain base_url hs
         else (case urljoin_of L base_url href of
                 None \<Rightarrow> Inl ValueError
               | Some full \<Rightarrow>
                   (case collect_links L domain base_url hs of
                      Inl e \<Rightarrow> Inl e
                    | Inr out \<Rightarrow>
                        Inr (if is_same_domain L domain full
                             then takeWhile (\<lambda>c. c \<noteq> CHR ''#'') full # out else out))))"

definition hrefs :: "node \<Rightarrow> string list" where
  \<comment> \<open>\<open>a["href"]\<close> for the anchors of \<open>soup.find_all("a", href=True)\<close>\<close>
  "hrefs soup = List.map_filter (attr ''href'') (find_all [''a''] soup)"

definition get_links :: "urllib \<Rightarrow> string \<Rightarrow> node \<Rightarrow> string \<Rightarrow> error + string list" where
  "get_links L domain soup base_url = collect_links L domain base_url (hrefs soup)"

text \<open>
  For the examples, \<open>urlsplit_netloc\<close> follows the library's \<open>urlsplit\<close> as far as the
  network location goes: leading control characters and spaces and every tab, carriage
  return and line feed are dropped, a scheme and its colon are taken off, and after
  \<open>//\<close> the location runs up to the first \<open>/\<close>, \<open>?\<close> or \<open>#\<close>. A location with one
  square bracket but not the other is the \<open>ValueError\<close> "Invalid IPv6 URL"; the further
  checks of the library on a host in brackets and on characters beyond ASCII are left
  out, as no example has either.
\<close>

definition is_scheme_char :: "char \<Rightarrow> bool" where
  "is_scheme_char c \<longleftrightarrow> is_alpha c \<or> is_digit c \<or> c \<in> set ''+-.''"

definition urlsplit_netloc :: "string \<Rightarrow> string option" where
  "urlsplit_netloc url =
     (let u1 = filter (\<lambda>c. (of_char c :: nat) \<notin> {9, 10, 13})
                 (dropWhile (\<lambda>c. (of_char c :: nat) \<le> 32) url);
          pre = takeWhile (\<lambda>c. c \<noteq> CHR '':'') u1;
          u2 = (if CHR '':'' \<in> set u1 \<and> pre \<noteq> [] \<and> is_alpha (hd pre) \<and> list_all is_scheme_char pre
                then drop (Suc (length pre)) u1 else u1)
      in if startswith u2 ''//''
         then (let nl = takeWhile (\<lambda>c. c \<notin> set ''/?#'') (drop 2 u2)
               in if (CHR ''['' \<in> set nl) \<noteq> (CHR '']'' \<in> set nl) then None else Some nl)
         else Some [])"

definition absolute_lib :: urllib where
  \<comment> \<open>the library on the URLs of the examples: \<open>urljoin\<close> gives an absolute \<open>href\<close>
      back as it is and raises where \<open>urlsplit\<close> raises; how it resolves a relative
      \<open>href\<close> is not modelled, and no example has one\<close>
  "absolute_lib =
     \<lparr>netloc_of = urlsplit_netloc,
      urljoin_of = (\<lambda>base href. case urlsplit_netloc href of None \<Rightarrow> None | Some nl \<Rightarrow> Some href)\<rparr>"

definition relevance_words :: "string list" where
  \<comment> \<open>the word list that the scraper sets up in its constructor\<close>
  "relevance_words = [''teacher'', ''faculty'', ''staff'', ''people'', ''personnel'', ''profile'',
     ''academic'', ''dept'', ''division'', ''fse'', ''fsis'', ''fbs'', ''fah'', ''law'', ''dis'',
     ''shis'', ''qsis'', ''cse'', ''eee'', ''cce'']"

definition is_potential_relevant :: "string \<Rightarrow> bool" where
  "is_potential_relevant url = list_ex (contains (lower url)) relevance_words"

definition looks_like_profile :: "string \<Rightarrow> node \<Rightarrow> bool" where
  "looks_like_profile url soup =
     (if list_ex (contains (lower url)) relevance_words then True
      else (let text = lower (get_text soup)
            in (contains text ''research'' \<or> contains text ''designation'' \<or> contains text ''email'')
               \<and> find_first [''h1'', ''h2''] soup \<noteq> None))"

section \<open>The profile extractor\<close>

record profile =
  name :: string
  designation :: string
  department :: string
  research_interests :: string
  office :: string
  emails :: "string set"
  phones :: "string list"
  image_url :: "string option"
  profile_url :: string

fun get_pair :: "pairs \<Rightarrow> string list \<Rightarrow> string" where
  \<comment> \<open>the first key that is present gives the value; the fallback is the empty string\<close>
  "get_pair m [] = []"
| "get_pair m (k # ks) = (case m k of Some v \<Rightarrow> v | None \<Rightarrow> get_pair m ks)"

definition title_name :: "node \<Rightarrow> string" where
  \<comment> \<open>\<open>if soup.title and soup.title.string: name = normalize_text(soup.title.string)\<close>\<close>
  "title_name soup =
     (case find_first [''title''] soup of
        None \<Rightarrow> []
      | Some t \<Rightarrow> (case node_string t of None \<Rightarrow> [] | Some s \<Rightarrow> normalize_text s))"

fun heading_name :: "string list \<Rightarrow> node \<Rightarrow> string \<Rightarrow> string" where
  \<comment> \<open>the loop over \<open>("h1", "h2", "h3")\<close>, from the name found so far\<close>
  "heading_name [] soup nm = nm"
| "heading_name (tag # tags) soup nm =
     (case find_first [tag] soup of
        None \<Rightarrow> heading_name tags soup nm
      | Some t \<Rightarrow>
          if length (get_text_strip t) > 2 then normalize_text (get_text t)
          else heading_name tags soup nm)"

definition resolve_name :: "node \<Rightarrow> string" where
  "resolve_name soup = heading_name [''h1'', ''h2'', ''h3''] soup (title_name soup)"

definition resolve_image :: "urllib \<Rightarrow> string \<Rightarrow> node \<Rightarrow> error + string option" where
  "resolve_image L url soup =
     (case find_first [''img''] soup of
        None \<Rightarrow> Inr None
      | Some imgtag \<Rightarrow>
          (case attr ''src'' imgtag of
             None \<Rightarrow> Inr None
           | Some src \<Rightarrow>
               if src = [] then Inr None
               else (case urljoin_of L url src of
                       None \<Rightarrow> Inl ValueError
                     | Some u \<Rightarrow> Inr (Some u))))"

definition profile_field :: "string list \<Rightarrow> node \<Rightarrow> string" where
  \<comment> \<open>\<open>get_pair(*keys)\<close> on the pairs of the page\<close>
  "profile_field keys soup = get_pair (find_label_value_pairs soup) keys"

definition page_emails :: "node \<Rightarrow> string set" where
  "page_emails soup = extract_emails (get_text_sep '' '' soup)"

definition page_phones :: "node \<Rightarrow> string list" where
  "page_phones soup = extract_phones (get_text_sep '' '' soup)"

definition extract_profile :: "urllib \<Rightarrow> string \<Rightarrow> node \<Rightarrow> error + profile option" where
  "extract_profile L url soup =
     (let nm = resolve_name soup;
          desig = profile_field [''designation'', ''position'', ''post''] soup;
          dept = profile_field [''department'', ''dept'', ''division''] soup;
          research = profile_field
            [''research interests'', ''research'', ''area of interest'', ''research area''] soup;
          offc = profile_field [''office'', ''room'', ''office no'', ''office address''] soup;
          ems = page_emails soup;
          phs = page_phones soup
      in case resolve_image L url soup of
           Inl e \<Rightarrow> Inl e
         | Inr img \<Rightarrow>
             if nm = [] \<and> ems = {} \<and> phs = [] \<and> desig = [] then Inr None
             else Inr (Some \<lparr>name = nm, designation = desig, department = dept,
                    research_interests = research, office = offc, emails = ems, phones = phs,
                    image_url = img, profile_url = url\<rparr>))"

section \<open>The crawl loop\<close>

text \<open>
  The network is a parameter: \<open>net C i url v\<close> is what the \<open>i\<close>-th request of the
  session gives when it asks for \<open>url\<close> with certificate verification \<open>v\<close>; the number
  of the request lets the answer for one URL change from one request to the next. An
  answer is a TLS failure, another failure (every other exception of the request,
  time-outs included), or a response with its status code, its \<open>Content-Type\<close> header
  (empty if there is none) and the document its body parses to.
\<close>

datatype fetch_result = SSLError | FetchError | Response int string node

record request =
  req_url :: string
  req_verify :: bool
  req_retry :: bool

record scraper =
  start_url :: string
  domain :: string
  max_pages :: int
  lib :: urllib
  net :: "nat \<Rightarrow> string \<Rightarrow> bool \<Rightarrow> fetch_result"

text \<open>
  The state of a crawl: the three local variables of \<open>crawl\<close> and the verification mode
  of the session (\<open>False\<close> is \<open>session.verify = False\<close>), with two histories that the
  proofs read: the requests sent so far and the number of passes through the loop body.
\<close>

record crawl_state =
  seen :: "string fset"
  queue :: "string list"
  results :: "profile list"
  verify :: bool
  requests :: "request list"
  passes :: nat

definition send :: "scraper \<Rightarrow> string \<Rightarrow> bool \<Rightarrow> crawl_state \<Rightarrow> fetch_result \<times> crawl_state" where
  \<comment> \<open>\<open>self.session.get(url, timeout=15)\<close>, in the mode the session has at this moment\<close>
  "send C url retry s =
     (net C (length (requests s)) url (verify s),
      s\<lparr>requests := requests s @ [\<lparr>req_url = url, req_verify = verify s, req_retry = retry\<rparr>]\<rparr>)"

definition fetch :: "scraper \<Rightarrow> string \<Rightarrow> crawl_state \<Rightarrow> (int \<times> string \<times> node) option \<times> crawl_state" where
  \<comment> \<open>the \<open>try\<close> statement of the loop; \<open>None\<close> is one of its \<open>continue\<close> branches\<close>
  "fetch C url s =
     (case send C url False s of
        (Response st ct doc, s1) \<Rightarrow> (Some (st, ct, doc), s1)
      | (FetchError, s1) \<Rightarrow> (None, s1)
      | (SSLError, s1) \<Rightarrow>
          (case send C url True (s1\<lparr>verify := False\<rparr>) of
             (Response st ct doc, s2) \<Rightarrow> (Some (st, ct, doc), s2)
           | (other, s2) \<Rightarrow> (None, s2)))"

fun enqueue_links :: "string fset \<Rightarrow> int \<Rightarrow> string list \<Rightarrow> string list \<Rightarrow> string list" where
  \<comment> \<open>the loop over the links of a page: \<open>appendleft\<close> for a relevant link, \<open>append\<close> for
      another, \<open>break\<close> once the budget is reached\<close>
  "enqueue_links sn limit qu [] = qu"
| "enqueue_links sn limit qu (link # links) =
     (if link |\<notin>| sn
      then (if int (fcard sn) + int (length qu) \<ge> limit then qu
            else enqueue_links sn limit
                   (if is_potential_relevant link then link # qu else qu @ [link]) links)
      else enqueue_links sn limit qu links)"

definition process_page ::
    "scraper \<Rightarrow> int \<Rightarrow> string \<Rightarrow> node \<Rightarrow> crawl_state \<Rightarrow> (error \<times> crawl_state) + crawl_state" where
  \<comment> \<open>the loop body after a response has been accepted; \<open>Inl\<close> is an exception that leaves
      \<open>crawl\<close>, with the state at that moment\<close>
  "process_page C limit url soup s =
     (case get_links (lib C) (domain C) soup url of
        Inl e \<Rightarrow> Inl (e, s)
      | Inr links \<Rightarrow>
          (let s1 = s\<lparr>queue := enqueue_links (seen s) limit (queue s) links\<rparr>
           in if looks_like_profile url soup
              then (case extract_profile (lib C) url soup of
                      Inl e \<Rightarrow> Inl (e, s1)
                    | Inr None \<Rightarrow> Inr s1
                    | Inr (Some p) \<Rightarrow> Inr (s1\<lparr>results := results s1 @ [p]\<rparr>))
              else Inr s1))"

definition iteration ::
    "scraper \<Rightarrow> int \<Rightarrow> string \<Rightarrow> crawl_state \<Rightarrow> (error \<times> crawl_state) + crawl_state" where
  \<comment> \<open>one pass through the loop body for the URL that \<open>popleft\<close> has taken from the queue\<close>
  "iteration C limit url s =
     (if url |\<in>| seen s then Inr s
      else (case fetch C url (s\<lparr>seen := finsert url (seen s)\<rparr>) of
              (None, s1) \<Rightarrow> Inr s1
            | (Some (st, ct, soup), s1) \<Rightarrow>
                if st \<noteq> 200 \<or> \<not> contains ct ''text/html'' then Inr s1
                else process_page C limit url soup s1))"

lemma send_frame:
  "send C url r s = (a, s1) \<Longrightarrow>
     seen s1 = seen s \<and> queue s1 = queue s \<and> results s1 = results s \<and> verify s1 = verify s"
  by (auto simp: send_def)

lemma fetch_frame:
  "fetch C url s = (r, s1) \<Longrightarrow> seen s1 = seen s \<and> queue s1 = queue s \<and> results s1 = results s"
  by (auto simp: fetch_def send_def split: prod.splits fetch_result.splits)

lemma process_page_seen: "process_page C limit url soup s = Inr s1 \<Longrightarrow> seen s1 = seen s"
  by (auto simp: process_page_def Let_def split: sum.splits option.splits if_splits)

lemma iteration_seen:
  assumes "iteration C limit url s = Inr s1"
  shows "(url |\<in>| seen s \<and> s1 = s) \<or> (url |\<notin>| seen s \<and> seen s1 = finsert url (seen s))"
proof (cases "url |\<in>| seen s")
  case True
  with assms show ?thesis by (simp add: iteration_def)
next
  case False
  obtain r s2 where f: "fetch C url (s\<lparr>seen := finsert url (seen s)\<rparr>) = (r, s2)"
    by (cases "fetch C url (s\<lparr>seen := finsert url (seen s)\<rparr>)")
  from fetch_frame [OF f] have s2: "seen s2 = finsert url (seen s)" by simp
  have "seen s1 = seen s2"
  proof (cases r)
    case None
    with assms False f show ?thesis by (simp add: iteration_def)
  next
    case (Some resp)
    obtain st ct soup where resp: "resp = (st, ct, soup)" by (cases resp)
    show ?thesis
    proof (cases "st \<noteq> 200 \<or> \<not> contains ct ''text/html''")
      case True
      with assms False f Some resp show ?thesis by (simp add: iteration_def)
    next
      case ok: False
      with assms False f Some resp have "process_page C limit url soup s2 = Inr s1"
        by (simp add: iteration_def)
      then show ?thesis by (rule process_page_seen)
    qed
  qed
  with s2 False show ?thesis by simp
qed

function crawl_loop :: "scraper \<Rightarrow> int \<Rightarrow> crawl_state \<Rightarrow> (error \<times> crawl_state) + crawl_state" where
  \<comment> \<open>\<open>while q and len(seen) < limit and len(results) < 10000\<close>\<close>
  "crawl_loop C limit s =
     (case queue s of
        [] \<Rightarrow> Inr s
      | url # rest \<Rightarrow>
          if int (fcard (seen s)) < limit \<and> length (results s) < 10000
          then (case iteration C limit url (s\<lparr>queue := rest, passes := Suc (passes s)\<rparr>) of
                  Inl e \<Rightarrow> Inl e
                | Inr s1 \<Rightarrow> crawl_loop C limit s1)
          else Inr s)"
  by pat_completeness auto
termination
proof (relation "measures [\<lambda>(C, limit, s). nat (limit - int (fcard (seen s))),
                           \<lambda>(C, limit, s). length (queue s)]", goal_cases)
  case 1
  show ?case by simp
next
  case (2 C limit s url rest s1)
  from iteration_seen [OF 2(3)] show ?case
  proof
    assume "url |\<in>| seen (s\<lparr>queue := rest, passes := Suc (passes s)\<rparr>)
        \<and> s1 = s\<lparr>queue := rest, passes := Suc (passes s)\<rparr>"
    with 2(1) show ?thesis by simp
  next
    assume "url |\<notin>| seen (s\<lparr>queue := rest, passes := Suc (passes s)\<rparr>)
        \<and> seen s1 = finsert url (seen (s\<lparr>queue := rest, passes := Suc (passes s)\<rparr>))"
    then have "fcard (seen s1) = Suc (fcard (seen s))"
      by (simp add: fcard_finsert_disjoint)
    with 2(2) show ?thesis by simp
  qed
qed

declare crawl_loop.simps [simp del]

definition effective_limit :: "int option \<Rightarrow> int \<Rightarrow> int" where
  \<comment> \<open>\<open>limit = limit or self.max_pages\<close>\<close>
  "effective_limit limit pages =
     (case limit of None \<Rightarrow> pages | Some l \<Rightarrow> if l = 0 then pages else l)"

definition init_state :: "string \<Rightarrow> bool \<Rightarrow> crawl_state" where
  "init_state url v =
     \<lparr>seen = {||}, queue = [url], results = [], verify = v, requests = [], passes = 0\<rparr>"

definition crawl :: "scraper \<Rightarrow> bool \<Rightarrow> int option \<Rightarrow> (error \<times> crawl_state) + crawl_state" where
  \<comment> \<open>\<open>crawl(limit)\<close> on a session in mode \<open>v\<close>; what Python returns is \<open>results\<close> of the
      final state\<close>
  "crawl C v limit =
     crawl_loop C (effective_limit limit (max_pages C)) (init_state (start_url C) v)"

fun final_state :: "(error \<times> crawl_state) + crawl_state \<Rightarrow> crawl_state" where
  \<comment> \<open>the state in which the loop was left, by its condition or by an exception\<close>
  "final_state (Inl (e, s)) = s"
| "final_state (Inr s) = s"

section \<open>Notions of the statements\<close>

text \<open>
  What the properties below speak of: the shape of a phone match (an optional plus sign,
  then at least seven characters, digits at both ends and digits, spaces, brackets and
  hyphens between them), the place where a value is first seen in a list, the texts a
  pattern matches as a whole, and texts whose only white space is single spaces between
  other characters.
\<close>

definition phone_shape :: "string \<Rightarrow> bool" where
  "phone_shape m =
     (let body = (if m \<noteq> [] \<and> hd m = CHR ''+'' then tl m else m)
      in 7 \<le> length body \<and> is_digit (hd body) \<and> is_digit (last body) \<and> list_all phone_inner body)"

definition first_seen :: "'a \<Rightarrow> 'a list \<Rightarrow> nat" where
  "first_seen x xs = length (takeWhile (\<lambda>y. y \<noteq> x) xs)"

inductive matches :: "item list \<Rightarrow> string \<Rightarrow> bool" where
  matches_nil: "matches [] []"
| matches_item: "list_all P u \<Longrightarrow> lo \<le> length u \<Longrightarrow>
     (case hi of None \<Rightarrow> True | Some h \<Rightarrow> length u \<le> h) \<Longrightarrow> matches items v \<Longrightarrow>
     matches ((P, lo, hi) # items) (u @ v)"

fun tidy :: "string \<Rightarrow> bool" where
  "tidy [] = True"
| "tidy [c] = (is_space c \<longrightarrow> c = CHR '' '')"
| "tidy (c # d # cs) = ((is_space c \<longrightarrow> c = CHR '' '' \<and> \<not> is_space d) \<and> tidy (d # cs))"

inductive_cases matches_NilE: "matches [] w"
inductive_cases matches_ConsE: "matches ((P, lo, hi) # items) w"

text \<open>
  For the crawl: the URLs fetched so far (the first requests, a retry counted with the
  request it repeats), the two requests a fetch can send and the answers the network
  gives to them, the state a fetch leaves, the history property of the latch (every
  request after a TLS failure was sent without verification), the links of a page that
  the enqueuing loop accepts, queues in which no relevant URL stands behind another one,
  and the bound on the number of passes with the measure that proves it.
\<close>

definition fetched :: "crawl_state \<Rightarrow> string list" where
  "fetched s = map req_url (filter (\<lambda>r. \<not> req_retry r) (requests s))"

definition first_request :: "string \<Rightarrow> crawl_state \<Rightarrow> request" where
  "first_request url s = \<lparr>req_url = url, req_verify = verify s, req_retry = False\<rparr>"

definition retry_request :: "string \<Rightarrow> request" where
  "retry_request url = \<lparr>req_url = url, req_verify = False, req_retry = True\<rparr>"

definition first_answer :: "scraper \<Rightarrow> string \<Rightarrow> crawl_state \<Rightarrow> fetch_result" where
  "first_answer C url s = net C (length (requests s)) url (verify s)"

definition retry_answer :: "scraper \<Rightarrow> string \<Rightarrow> crawl_state \<Rightarrow> fetch_result" where
  "retry_answer C url s = net C (Suc (length (requests s))) url False"

definition page_of :: "fetch_result \<Rightarrow> (int \<times> string \<times> node) option" where
  "page_of a = (case a of Response st ct soup \<Rightarrow> Some (st, ct, soup) | _ \<Rightarrow> None)"

definition tls_failed :: "scraper \<Rightarrow> request list \<Rightarrow> nat \<Rightarrow> bool" where
  "tls_failed C rs i \<longleftrightarrow> net C i (req_url (rs ! i)) (req_verify (rs ! i)) = SSLError"

definition latched :: "scraper \<Rightarrow> request list \<Rightarrow> bool" where
  "latched C rs \<longleftrightarrow> (\<forall>j < length rs. \<forall>i < j. tls_failed C rs i \<longrightarrow> \<not> req_verify (rs ! j))"

definition after_fetch :: "scraper \<Rightarrow> string \<Rightarrow> crawl_state \<Rightarrow> crawl_state" where
  "after_fetch C url s = snd (fetch C url (s\<lparr>seen := finsert url (seen s)\<rparr>))"

definition accepted :: "string fset \<Rightarrow> int \<Rightarrow> nat \<Rightarrow> string list \<Rightarrow> string list" where
  "accepted sn limit n links =
     take (nat (limit - int (fcard sn) - int n)) (filter (\<lambda>l. l |\<notin>| sn) links)"

definition lanes :: "string list \<Rightarrow> bool" where
  "lanes qu \<longleftrightarrow> list_all (\<lambda>l. \<not> is_potential_relevant l) (dropWhile is_potential_relevant qu)"

definition pass_bound :: "int \<Rightarrow> nat" where
  "pass_bound limit = nat limit * (nat limit + 1) + 1"

definition potential :: "int \<Rightarrow> crawl_state \<Rightarrow> nat" where
  "potential limit s = (nat limit - fcard (seen s)) * (nat limit + 1) + length (queue s)"

definition latch_inv :: "scraper \<Rightarrow> request list \<Rightarrow> bool \<Rightarrow> bool" where
  "latch_inv C rs v \<longleftrightarrow> latched C rs \<and> (\<forall>i < length rs. tls_failed C rs i \<longrightarrow> \<not> v)"

section \<open>Example pages and sites\<close>

definition html_page :: "node list \<Rightarrow> node" where
  "html_page body = Elem ''[document]'' [] [Elem ''html'' [] [Elem ''body'' [] body]]"

definition department_page :: node where
  "department_page = html_page
     [Elem ''table'' [] [Elem ''tr'' [] [Elem ''td'' [] [Text ''Department''], Elem ''td'' [] [Text ''CSE'']]],
      Elem ''p'' [] [Text ''department: Other'']]"

definition bad_image_page :: node where
  "bad_image_page = html_page
     [Elem ''h1'' [] [Text ''Prof. John Doe''], Elem ''img'' [(''src'', ''http://['')] []]"

definition conference_page :: node where
  "conference_page = html_page [Elem ''h1'' [] [Text ''Conference Schedule''], Elem ''p'' [] [Text ''Room plan follows.'']]"

definition plain_schedule_page :: node where
  "plain_schedule_page = html_page [Elem ''h4'' [] [Text ''Conference Schedule''], Elem ''p'' [] [Text ''Room plan follows.'']]"

definition image_only_page :: node where
  "image_only_page = html_page [Elem ''img'' [(''src'', ''http://['')] []]"

definition sample_page :: node where
  \<comment> \<open>\<open>SAMPLE_HTML\<close> of the repository's own test: its elements, with the white space
      between them as text nodes (where a parser puts these changes no field)\<close>
  "sample_page = Elem ''[document]'' []
     [Elem ''html'' []
        [Elem ''head'' [] [Elem ''title'' [] [Text ''Prof. John Doe - Department of Computer Science'']],
         Text [CHR 0x0A, CHR '' '', CHR '' ''],
         Elem ''body'' []
           [Text [CHR 0x0A, CHR 0x09], Elem ''h1'' [] [Text ''Prof. John Doe''],
            Text [CHR 0x0A, CHR 0x09], Elem ''p'' [] [Text ''Designation: Professor''],
            Text [CHR 0x0A, CHR 0x09], Elem ''p'' [] [Text ''Department: Computer Science & Engineering''],
            Text [CHR 0x0A, CHR 0x09], Elem ''p'' [] [Text ''Email: john.doe@iiuc.ac.bd''],
            Text [CHR 0x0A, CHR 0x09], Elem ''p'' [] [Text ''Phone: +880 1234 567890''],
            Text [CHR 0x0A, CHR 0x09], Elem ''p'' [] [Text ''Research interests: Algorithms, Distributed Systems''],
            Text [CHR 0x0A, CHR '' '', CHR '' ''], Text [CHR 0x0A, CHR '' '', CHR '' '', CHR 0x0A]]]]"

definition fragment_page :: node where
  "fragment_page = html_page
     [Elem ''a'' [(''href'', ''https://example.edu/staff#top'')] [Text ''Staff''],
      Elem ''a'' [(''href'', ''mailto:dean@example.edu'')] [Text ''Mail''],
      Elem ''a'' [(''href'', ''https://other.org/x'')] [Text ''Elsewhere'']]"

definition staff_page :: node where
  "staff_page = html_page
     [Elem ''a'' [(''href'', ''https://example.edu/staff/a'')] [Text ''A''],
      Elem ''a'' [(''href'', ''https://example.edu/staff/b'')] [Text ''B'']]"

definition staff_site :: scraper where
  "staff_site =
     \<lparr>start_url = ''https://example.edu/'', domain = ''example.edu'', max_pages = 10,
      lib = absolute_lib,
      net = (\<lambda>i url v. if url = ''https://example.edu/''
                        then Response 200 ''text/html'' staff_page
                        else Response 200 ''text/html'' (html_page []))\<rparr>"

definition tls_site :: scraper where
  "tls_site =
     \<lparr>start_url = ''https://example.edu/'', domain = ''example.edu'', max_pages = 10,
      lib = absolute_lib,
      net = (\<lambda>i url v. if v then SSLError else Response 200 ''text/html; charset=utf-8'' staff_page)\<rparr>"

definition dead_site :: scraper where
  "dead_site =
     \<lparr>start_url = ''https://example.edu/'', domain = ''example.edu'', max_pages = 10,
      lib = absolute_lib, net = (\<lambda>i url v. SSLError)\<rparr>"

section \<open>Properties of the label-value harvester\<close>

lemma store_pairs_append: "store_pairs m (ps @ qs) = store_pairs (store_pairs m ps) qs"
  by (induction ps arbitrary: m) (auto simp: Let_def)

lemma store_pairs_empty_key: "store_pairs m ps [] = m []"
  by (induction ps arbitrary: m) (auto simp: Let_def)

lemma setdefault_keeps: "m k = Some v \<Longrightarrow> setdefault m k' v' k = Some v"
  by (auto simp: setdefault_def split: option.splits)

lemma free_text_pairs_keeps: "m k = Some v \<Longrightarrow> free_text_pairs m ts k = Some v"
  by (induction ts arbitrary: m) (auto simp: Let_def setdefault_keeps)

lemma setdefault_new:
  "m k = None \<Longrightarrow> setdefault m k' v' k = Some v \<Longrightarrow> k = k' \<and> v = v'"
  by (auto simp: setdefault_def split: option.splits if_splits)

lemma free_text_pairs_new:
  "m k = None \<Longrightarrow> free_text_pairs m ts k = Some v \<Longrightarrow>
     length k < 40 \<and> v \<noteq> [] \<and>
     (\<exists>t \<in> set ts. CHR '':'' \<in> set (normalize_text t) \<and> k = free_key (normalize_text t)
        \<and> v = free_value (normalize_text t))"
proof (induction ts arbitrary: m)
  case Nil
  then show ?case by simp
next
  case (Cons t ts)
  let ?text = "normalize_text t"
  let ?m' = "if CHR '':'' \<in> set ?text \<and> length (free_key ?text) < 40 \<and> length (free_value ?text) > 0
             then setdefault m (free_key ?text) (free_value ?text) else m"
  have step: "free_text_pairs m (t # ts) = free_text_pairs ?m' ts"
    by (simp add: Let_def)
  show ?case
  proof (cases "?m' k")
    case None
    with Cons.IH [of ?m'] Cons.prems(2) step show ?thesis by auto
  next
    case (Some w)
    then have "free_text_pairs ?m' ts k = Some w" by (rule free_text_pairs_keeps)
    with step Cons.prems(2) have "w = v" by simp
    with Some Cons.prems(1) have new: "CHR '':'' \<in> set ?text" "length (free_key ?text) < 40"
      "length (free_value ?text) > 0" "setdefault m (free_key ?text) (free_value ?text) k = Some v"
      by (auto split: if_splits)
    from setdefault_new [OF Cons.prems(1) new(4)] new show ?thesis by auto
  qed
qed

lemma department_page_value: "find_label_value_pairs department_page ''department'' = Some ''CSE''"
  by code_simp

text \<open>
  C3 (harvester precedence). The free-text pass never changes a key that is in the map
  already. A key it adds comes from a text with a colon, has fewer than 40 characters
  and a non-empty value. The table pass, as the definition-list pass, stores the last
  pair of a label whatever the map held for it (\<open>m\<close> is any map, so also the one the
  definition lists left, and \<open>ps\<close> any earlier rows). The page with the table row
  \<open>Department | CSE\<close> and the later paragraph \<open>department: Other\<close> gives \<open>CSE\<close>.
\<close>

theorem harvester_precedence:
  "(m k = Some v \<longrightarrow> free_text_pairs m ts k = Some v)
   \<and> (m k = None \<and> free_text_pairs m ts k = Some v \<longrightarrow>
        length k < 40 \<and> v \<noteq> [] \<and>
        (\<exists>t \<in> set ts. CHR '':'' \<in> set (normalize_text t) \<and> k = free_key (normalize_text t)
           \<and> v = free_value (normalize_text t)))
   \<and> (label_key kt \<noteq> [] \<longrightarrow>
        store_pairs m (ps @ [(kt, vt)]) (label_key kt) = Some (normalize_text vt))
   \<and> find_label_value_pairs department_page ''department'' = Some ''CSE''"
proof -
  have a: "m k = Some v \<longrightarrow> free_text_pairs m ts k = Some v"
    by (simp add: free_text_pairs_keeps)
  have b: "m k = None \<and> free_text_pairs m ts k = Some v \<longrightarrow>
        length k < 40 \<and> v \<noteq> [] \<and>
        (\<exists>t \<in> set ts. CHR '':'' \<in> set (normalize_text t) \<and> k = free_key (normalize_text t)
           \<and> v = free_value (normalize_text t))"
    using free_text_pairs_new by blast
  have c: "label_key kt \<noteq> [] \<longrightarrow>
        store_pairs m (ps @ [(kt, vt)]) (label_key kt) = Some (normalize_text vt)"
    by (simp add: store_pairs_append Let_def)
  from a b c department_page_value show ?thesis by blast
qed

theorem harvester_precedence_witness:
  "store_pairs Map.empty [(''Department'', ''CSE'')] ''department'' = Some ''CSE''
   \<and> free_text_pairs (store_pairs Map.empty [(''Department'', ''CSE'')]) [''department: Other''] ''department'' = Some ''CSE''
   \<and> free_text_pairs Map.empty [''office : Room 4''] ''department'' = None
   \<and> free_text_pairs Map.empty [''office : Room 4''] ''office'' = Some ''Room 4''
   \<and> length ''office'' < 40
   \<and> label_key ''Department:'' \<noteq> []
   \<and> store_pairs (store_pairs Map.empty [(''Department'', ''EEE'')]) ([] @ [(''Department:'', ''CSE'')]) (label_key ''Department:'') = Some (normalize_text ''CSE'')"
proof -
  have a: "store_pairs Map.empty [(''Department'', ''CSE'')] ''department'' = Some ''CSE''"
    by code_simp
  have b: "Map.empty ''office'' = (None :: string option)
      \<and> free_text_pairs Map.empty [''office : Room 4''] ''office'' = Some ''Room 4''"
    by code_simp
  have c: "label_key ''Department:'' \<noteq> []" by code_simp
  have d: "free_text_pairs Map.empty [''office : Room 4''] ''department'' = None" by code_simp
  note h1 = harvester_precedence [of "store_pairs Map.empty [(''Department'', ''CSE'')]" "''department''" "''CSE''"
      "[''department: Other'']" "''Department:''" "[]" "''CSE''"]
  note h2 = harvester_precedence [of Map.empty "''office''" "''Room 4''" "[''office : Room 4'']" "''Department:''" "[]" "''CSE''"]
  note h3 = harvester_precedence [of "store_pairs Map.empty [(''Department'', ''EEE'')]" "''department''" "''CSE''"
      "[]" "''Department:''" "[]" "''CSE''"]
  from h1 a have e: "free_text_pairs (store_pairs Map.empty [(''Department'', ''CSE'')]) [''department: Other''] ''department'' = Some ''CSE''"
    by blast
  from h2 b have f: "length ''office'' < 40" by blast
  from h3 c have g: "store_pairs (store_pairs Map.empty [(''Department'', ''EEE'')]) ([] @ [(''Department:'', ''CSE'')]) (label_key ''Department:'') = Some (normalize_text ''CSE'')"
    by blast
  from a b c d e f g show ?thesis by blast
qed

text \<open>
  C10 (no empty key from the structured passes). The definition-list loop and the table
  loop run the same body, \<open>store_pairs\<close>: it never writes the empty key, and a pair
  whose label normalises to the empty text is dropped without a trace. So the map the two
  passes leave has no empty key. The free-text loop has no such test: the line
  \<open>: x\<close> puts the value \<open>x\<close> under the empty key.
\<close>

theorem structured_passes_skip_empty_label:
  "store_pairs m ps [] = m []
   \<and> (label_key kt = [] \<longrightarrow> store_pairs m ((kt, vt) # ps) = store_pairs m ps)
   \<and> [] \<notin> dom (store_pairs (store_pairs Map.empty (dl_texts soup)) (table_texts soup))
   \<and> [] \<in> dom (free_text_pairs Map.empty ['': x''])"
proof -
  have a: "store_pairs m ps [] = m []" by (rule store_pairs_empty_key)
  have b: "label_key kt = [] \<longrightarrow> store_pairs m ((kt, vt) # ps) = store_pairs m ps"
    by (simp add: Let_def)
  have c: "[] \<notin> dom (store_pairs (store_pairs Map.empty (dl_texts soup)) (table_texts soup))"
    by (simp add: store_pairs_empty_key dom_def)
  have d: "free_text_pairs Map.empty ['': x''] [] = Some ''x''" by code_simp
  from a b c d show ?thesis by blast
qed

theorem structured_passes_skip_empty_label_witness:
  "label_key '' : '' = []
   \<and> store_pairs Map.empty [('' : '', ''v''), (''Office'', ''B12'')] = store_pairs Map.empty [(''Office'', ''B12'')]
   \<and> store_pairs Map.empty [('' : '', ''v''), (''Office'', ''B12'')] ''office'' = Some ''B12''"
proof -
  have a: "label_key '' : '' = []" by code_simp
  have b: "store_pairs Map.empty [(''Office'', ''B12'')] ''office'' = Some ''B12''" by code_simp
  from structured_passes_skip_empty_label [of Map.empty "[(''Office'', ''B12'')]" "'' : ''" "''v''"] a
  have c: "store_pairs Map.empty [('' : '', ''v''), (''Office'', ''B12'')] = store_pairs Map.empty [(''Office'', ''B12'')]"
    by blast
  from a b c show ?thesis by simp
qed

section \<open>Properties of the profile extractor\<close>

lemma extract_profile_guard:
  "extract_profile L url soup =
     (case resolve_image L url soup of
        Inl e \<Rightarrow> Inl e
      | Inr img \<Rightarrow>
          if resolve_name soup = [] \<and> page_emails soup = {} \<and> page_phones soup = []
             \<and> profile_field [''designation'', ''position'', ''post''] soup = []
          then Inr None
          else Inr (Some \<lparr>name = resolve_name soup,
                 designation = profile_field [''designation'', ''position'', ''post''] soup,
                 department = profile_field [''department'', ''dept'', ''division''] soup,
                 research_interests = profile_field
                   [''research interests'', ''research'', ''area of interest'', ''research area''] soup,
                 office = profile_field [''office'', ''room'', ''office no'', ''office address''] soup,
                 emails = page_emails soup, phones = page_phones soup,
                 image_url = img, profile_url = url\<rparr>))"
  by (simp add: extract_profile_def Let_def)

lemma dropWhile_keeps: "x \<in> set xs \<Longrightarrow> \<not> P x \<Longrightarrow> x \<in> set (dropWhile P xs)"
  by (induction xs) auto

lemma strip_keeps: "c \<in> set s \<Longrightarrow> \<not> is_space c \<Longrightarrow> c \<in> set (strip s)"
  by (simp add: strip_def lstrip_def rstrip_def dropWhile_keeps)

lemma collapse_ws_keeps: "c \<in> set s \<Longrightarrow> \<not> is_space c \<Longrightarrow> c \<in> set (collapse_ws b s)"
  by (induction s arbitrary: b) auto

lemma strip_subset: "set (strip s) \<subseteq> set s"
proof -
  have "set (strip s) \<subseteq> set (lstrip s)"
    using set_dropWhileD [of _ is_space "rev (lstrip s)"] by (auto simp: strip_def rstrip_def)
  also have "\<dots> \<subseteq> set s"
    using set_dropWhileD [of _ is_space s] by (auto simp: lstrip_def)
  finally show ?thesis .
qed

lemma strip_last_not_space:
  assumes "strip s \<noteq> []"
  shows "\<not> is_space (last (strip s))"
proof -
  let ?d = "dropWhile is_space (rev (lstrip s))"
  from assms have ne: "?d \<noteq> []" by (simp add: strip_def rstrip_def)
  then have "\<not> is_space (hd ?d)" by (rule hd_dropWhile)
  moreover from ne have "last (strip s) = hd ?d"
    by (simp add: strip_def rstrip_def last_rev)
  ultimately show ?thesis by simp
qed

lemma stripped_text_gives_name:
  assumes "get_text_strip t \<noteq> []"
  shows "normalize_text (get_text t) \<noteq> []"
proof -
  from assms obtain s where s: "s \<in> set (strings t)" "strip s \<noteq> []"
    by (auto simp: get_text_strip_def)
  let ?c = "last (strip s)"
  from s(2) have "?c \<in> set (strip s)" by simp
  with strip_subset have "?c \<in> set s" by blast
  with s(1) have c: "?c \<in> set (get_text t)" by (auto simp: get_text_def)
  from s(2) have ns: "\<not> is_space ?c" by (rule strip_last_not_space)
  from c ns have "?c \<in> set (collapse_ws False (get_text t))" by (rule collapse_ws_keeps)
  then have "?c \<in> set (strip (collapse_ws False (get_text t)))" using ns by (rule strip_keeps)
  moreover from c have "get_text t \<noteq> []" by auto
  ultimately show ?thesis by (auto simp: normalize_text_def)
qed

lemma heading_h1_name:
  assumes "find_first [''h1''] soup = Some t" and "length (get_text_strip t) > 2"
  shows "resolve_name soup = normalize_text (get_text t)" and "resolve_name soup \<noteq> []"
proof -
  from assms show n: "resolve_name soup = normalize_text (get_text t)"
    by (simp add: resolve_name_def)
  from assms(2) have "get_text_strip t \<noteq> []" by auto
  then show "resolve_name soup \<noteq> []" unfolding n by (rule stripped_text_gives_name)
qed

text \<open>
  The repository's own test, on the sample page it carries: the extractor gives a
  profile, the name starts with \<open>prof. john\<close> once in lower case, and the e-mail
  address of the page is among the addresses found. The other fields are those the page
  shows.
\<close>

lemma sample_page_name: "resolve_name sample_page = ''Prof. John Doe''"
  by code_simp

lemma sample_page_emails: "page_emails sample_page = {''john.doe@iiuc.ac.bd''}"
  by code_simp

lemma sample_page_phones: "page_phones sample_page = [''+880 1234 567890'']"
  by code_simp

lemma sample_page_fields:
  "profile_field [''designation'', ''position'', ''post''] sample_page = ''Professor''
   \<and> profile_field [''department'', ''dept'', ''division''] sample_page = ''Computer Science & Engineering''
   \<and> profile_field [''research interests'', ''research'', ''area of interest'', ''research area''] sample_page
       = ''Algorithms, Distributed Systems''
   \<and> profile_field [''office'', ''room'', ''office no'', ''office address''] sample_page = []"
  by code_simp

lemma sample_page_image: "resolve_image L url sample_page = Inr None"
proof -
  have "find_first [''img''] sample_page = None" by code_simp
  then show ?thesis by (simp add: resolve_image_def)
qed

lemma sample_page_profile:
  "extract_profile L ''https://www.iiuc.ac.bd/faculty/john-doe'' sample_page =
     Inr (Some \<lparr>name = ''Prof. John Doe'', designation = ''Professor'',
       department = ''Computer Science & Engineering'',
       research_interests = ''Algorithms, Distributed Systems'', office = [],
       emails = {''john.doe@iiuc.ac.bd''}, phones = [''+880 1234 567890''],
       image_url = None, profile_url = ''https://www.iiuc.ac.bd/faculty/john-doe''\<rparr>)"
  by (simp add: extract_profile_guard sample_page_name sample_page_emails sample_page_phones
      sample_page_fields sample_page_image)

text \<open>
  C4 (the guard of the extractor). The extractor resolves the image URL before it comes
  to the guard, outside any handler. On a page whose first image has a source that the
  URL library rejects, it raises \<open>ValueError\<close>: no record comes out although the page
  has a name, and a page with nothing but such an image raises where the guard would
  have answered "no profile". On every page whose image resolves (or that has no image)
  the guard decides as claimed: no profile exactly when name, e-mail addresses, phone
  numbers and designation are all empty, the record with all its fields otherwise.
\<close>

theorem extract_profile_raises_on_image:
  "(urljoin_of L url ''http://['' = None \<longrightarrow>
      resolve_name bad_image_page = ''Prof. John Doe''
      \<and> extract_profile L url bad_image_page = Inl ValueError
      \<and> resolve_name image_only_page = [] \<and> page_emails image_only_page = {}
      \<and> page_phones image_only_page = []
      \<and> profile_field [''designation'', ''position'', ''post''] image_only_page = []
      \<and> extract_profile L url image_only_page = Inl ValueError)
   \<and> (resolve_image L url soup = Inr img \<longrightarrow>
      extract_profile L url soup =
        (if resolve_name soup = [] \<and> page_emails soup = {} \<and> page_phones soup = []
            \<and> profile_field [''designation'', ''position'', ''post''] soup = []
         then Inr None
         else Inr (Some \<lparr>name = resolve_name soup,
                designation = profile_field [''designation'', ''position'', ''post''] soup,
                department = profile_field [''department'', ''dept'', ''division''] soup,
                research_interests = profile_field
                  [''research interests'', ''research'', ''area of interest'', ''research area''] soup,
                office = profile_field [''office'', ''room'', ''office no'', ''office address''] soup,
                emails = page_emails soup, phones = page_phones soup,
                image_url = img, profile_url = url\<rparr>)))"
proof -
  have i1: "find_first [''img''] bad_image_page = Some (Elem ''img'' [(''src'', ''http://['')] [])"
    by code_simp
  have i2: "find_first [''img''] image_only_page = Some (Elem ''img'' [(''src'', ''http://['')] [])"
    by code_simp
  have n: "resolve_name bad_image_page = ''Prof. John Doe''" by code_simp
  have e: "resolve_name image_only_page = [] \<and> page_emails image_only_page = {}
     \<and> page_phones image_only_page = []
     \<and> profile_field [''designation'', ''position'', ''post''] image_only_page = []"
    by code_simp
  have a: "urljoin_of L url ''http://['' = None \<longrightarrow>
      resolve_name bad_image_page = ''Prof. John Doe''
      \<and> extract_profile L url bad_image_page = Inl ValueError
      \<and> resolve_name image_only_page = [] \<and> page_emails image_only_page = {}
      \<and> page_phones image_only_page = []
      \<and> profile_field [''designation'', ''position'', ''post''] image_only_page = []
      \<and> extract_profile L url image_only_page = Inl ValueError"
  proof
    assume h: "urljoin_of L url ''http://['' = None"
    from h i1 have r1: "resolve_image L url bad_image_page = Inl ValueError"
      by (simp add: resolve_image_def)
    from h i2 have r2: "resolve_image L url image_only_page = Inl ValueError"
      by (simp add: resolve_image_def)
    from r1 r2 n e show "resolve_name bad_image_page = ''Prof. John Doe''
      \<and> extract_profile L url bad_image_page = Inl ValueError
      \<and> resolve_name image_only_page = [] \<and> page_emails image_only_page = {}
      \<and> page_phones image_only_page = []
      \<and> profile_field [''designation'', ''position'', ''post''] image_only_page = []
      \<and> extract_profile L url image_only_page = Inl ValueError"
      by (simp add: extract_profile_guard)
  qed
  have b: "resolve_image L url soup = Inr img \<longrightarrow>
      extract_profile L url soup =
        (if resolve_name soup = [] \<and> page_emails soup = {} \<and> page_phones soup = []
            \<and> profile_field [''designation'', ''position'', ''post''] soup = []
         then Inr None
         else Inr (Some \<lparr>name = resolve_name soup,
                designation = profile_field [''designation'', ''position'', ''post''] soup,
                department = profile_field [''department'', ''dept'', ''division''] soup,
                research_interests = profile_field
                  [''research interests'', ''research'', ''area of interest'', ''research area''] soup,
                office = profile_field [''office'', ''room'', ''office no'', ''office address''] soup,
                emails = page_emails soup, phones = page_phones soup,
                image_url = img, profile_url = url\<rparr>))"
    by (simp add: extract_profile_guard)
  from a b show ?thesis by (rule conjI)
qed

theorem extract_profile_raises_on_image_witness:
  "urljoin_of absolute_lib ''https://example.edu/faculty/jd'' ''http://['' = None
   \<and> extract_profile absolute_lib ''https://example.edu/faculty/jd'' bad_image_page = Inl ValueError
   \<and> extract_profile absolute_lib ''https://example.edu/faculty/jd'' image_only_page = Inl ValueError
   \<and> resolve_image absolute_lib ''https://example.edu/faculty/jd'' plain_schedule_page = Inr None
   \<and> extract_profile absolute_lib ''https://example.edu/faculty/jd'' plain_schedule_page = Inr None"
proof -
  note t = extract_profile_raises_on_image [where L = absolute_lib
      and url = "''https://example.edu/faculty/jd''" and soup = plain_schedule_page and img = None]
  have h: "urljoin_of absolute_lib ''https://example.edu/faculty/jd'' ''http://['' = None"
    by code_simp
  have i: "resolve_image absolute_lib ''https://example.edu/faculty/jd'' plain_schedule_page = Inr None"
    by code_simp
  have e: "resolve_name plain_schedule_page = [] \<and> page_emails plain_schedule_page = {}
     \<and> page_phones plain_schedule_page = []
     \<and> profile_field [''designation'', ''position'', ''post''] plain_schedule_page = []"
    by code_simp
  from t h have a: "extract_profile absolute_lib ''https://example.edu/faculty/jd'' bad_image_page = Inl ValueError
     \<and> extract_profile absolute_lib ''https://example.edu/faculty/jd'' image_only_page = Inl ValueError"
    by blast
  from t i e have b: "extract_profile absolute_lib ''https://example.edu/faculty/jd'' plain_schedule_page = Inr None"
    by simp
  from h a i b show ?thesis by blast
qed

text \<open>
  C5 (profile guard on a page without identity). As the claim states it, it fails: the
  page with the heading \<open>Conference Schedule\<close> at level 1 and no e-mail address, phone
  number or designation passes the page-level test and gives a record, because the
  heading is taken for the name.
\<close>

theorem conference_page_yields_record:
  "looks_like_profile ''https://example.edu/academic/events'' conference_page
   \<and> page_emails conference_page = {} \<and> page_phones conference_page = []
   \<and> profile_field [''designation'', ''position'', ''post''] conference_page = []
   \<and> extract_profile absolute_lib ''https://example.edu/academic/events'' conference_page =
       Inr (Some \<lparr>name = ''Conference Schedule'', designation = [], department = [],
         research_interests = [], office = [], emails = {}, phones = [],
         image_url = None, profile_url = ''https://example.edu/academic/events''\<rparr>)"
  by code_simp

text \<open>
  C5, amended. A page gives no record when the name resolution finds nothing (no title
  text and no first \<open>h1\<close>, \<open>h2\<close> or \<open>h3\<close> with more than two characters of stripped
  text) and it has no e-mail address, phone number or designation, whatever the page-level
  test said. A first \<open>h1\<close> with more than two characters of stripped text is the name,
  the name is then not empty, and the guard does not answer "no profile".
\<close>

theorem no_identity_no_record:
  "(resolve_name soup = [] \<and> page_emails soup = {} \<and> page_phones soup = []
      \<and> profile_field [''designation'', ''position'', ''post''] soup = []
      \<longrightarrow> extract_profile L url soup \<in> {Inr None, Inl ValueError})
   \<and> (find_first [''h1''] soup = Some t \<and> length (get_text_strip t) > 2
      \<longrightarrow> resolve_name soup = normalize_text (get_text t) \<and> resolve_name soup \<noteq> []
          \<and> extract_profile L url soup \<noteq> Inr None)"
proof -
  have a: "resolve_name soup = [] \<and> page_emails soup = {} \<and> page_phones soup = []
      \<and> profile_field [''designation'', ''position'', ''post''] soup = []
      \<longrightarrow> extract_profile L url soup \<in> {Inr None, Inl ValueError}"
    by (cases "resolve_image L url soup") (auto simp: extract_profile_guard intro: error.exhaust)
  have b: "find_first [''h1''] soup = Some t \<and> length (get_text_strip t) > 2
      \<longrightarrow> resolve_name soup = normalize_text (get_text t) \<and> resolve_name soup \<noteq> []
          \<and> extract_profile L url soup \<noteq> Inr None"
  proof (intro impI, elim conjE)
    assume h: "find_first [''h1''] soup = Some t" "length (get_text_strip t) > 2"
    note n = heading_h1_name [OF h]
    from n(2) have "extract_profile L url soup \<noteq> Inr None"
      by (cases "resolve_image L url soup") (auto simp: extract_profile_guard)
    with n show "resolve_name soup = normalize_text (get_text t) \<and> resolve_name soup \<noteq> []
          \<and> extract_profile L url soup \<noteq> Inr None" by simp
  qed
  from a b show ?thesis by blast
qed

theorem no_identity_no_record_witness:
  "looks_like_profile ''https://example.edu/academic/events'' plain_schedule_page
   \<and> resolve_name plain_schedule_page = [] \<and> page_emails plain_schedule_page = {}
   \<and> page_phones plain_schedule_page = []
   \<and> profile_field [''designation'', ''position'', ''post''] plain_schedule_page = []
   \<and> extract_profile absolute_lib ''https://example.edu/academic/events'' plain_schedule_page
       \<in> {Inr None, Inl ValueError}
   \<and> find_first [''h1''] conference_page = Some (Elem ''h1'' [] [Text ''Conference Schedule''])
   \<and> length (get_text_strip (Elem ''h1'' [] [Text ''Conference Schedule''])) > 2
   \<and> resolve_name conference_page \<noteq> []"
proof -
  have a: "looks_like_profile ''https://example.edu/academic/events'' plain_schedule_page
     \<and> resolve_name plain_schedule_page = [] \<and> page_emails plain_schedule_page = {}
     \<and> page_phones plain_schedule_page = []
     \<and> profile_field [''designation'', ''position'', ''post''] plain_schedule_page = []"
    by code_simp
  have b: "find_first [''h1''] conference_page = Some (Elem ''h1'' [] [Text ''Conference Schedule''])
     \<and> length (get_text_strip (Elem ''h1'' [] [Text ''Conference Schedule''])) > 2"
    by code_simp
  from a no_identity_no_record [of plain_schedule_page absolute_lib
      "''https://example.edu/academic/events''"]
  have c: "extract_profile absolute_lib ''https://example.edu/academic/events'' plain_schedule_page
       \<in> {Inr None, Inl ValueError}" by blast
  from b no_identity_no_record [of conference_page absolute_lib
      "''https://example.edu/academic/events''" "Elem ''h1'' [] [Text ''Conference Schedule'']"]
  have d: "resolve_name conference_page \<noteq> []" by blast
  from a b c d show ?thesis by blast
qed

section \<open>Properties of the domain test and the link resolver\<close>

lemma startswith_iff: "startswith s p \<longleftrightarrow> (\<exists>r. s = p @ r)"
  by (induction s p rule: startswith.induct) auto

lemma endswith_iff: "endswith s p \<longleftrightarrow> (\<exists>sub. s = sub @ p)"
proof
  assume "endswith s p"
  then obtain r where "rev s = rev p @ r" by (auto simp: endswith_def startswith_iff)
  then have "s = rev r @ p" by (metis rev_append rev_rev_ident)
  then show "\<exists>sub. s = sub @ p" ..
next
  assume "\<exists>sub. s = sub @ p"
  then show "endswith s p" by (auto simp: endswith_def startswith_iff)
qed

lemma collect_links_no_fragment:
  "collect_links L d base hs = Inr links \<Longrightarrow> \<forall>u \<in> set links. CHR ''#'' \<notin> set u"
proof (induction hs arbitrary: links)
  case Nil
  then show ?case by simp
next
  case (Cons h hs)
  show ?case
  proof (cases "startswith (strip h) ''mailto:'' \<or> startswith (strip h) ''tel:''")
    case True
    with Cons show ?thesis by (simp add: Let_def)
  next
    case False
    with Cons.prems obtain full out where
      j: "urljoin_of L base (strip h) = Some full" and
      r: "collect_links L d base hs = Inr out" and
      l: "links = (if is_same_domain L d full then takeWhile (\<lambda>c. c \<noteq> CHR ''#'') full # out else out)"
      by (auto simp: Let_def split: option.splits sum.splits)
    from Cons.IH [OF r] have o: "\<forall>u \<in> set out. CHR ''#'' \<notin> set u" .
    have "CHR ''#'' \<notin> set (takeWhile (\<lambda>c. c \<noteq> CHR ''#'') full)"
      using set_takeWhileD by fastforce
    with o l show ?thesis by auto
  qed
qed

text \<open>
  C7 (domain containment). The domain test holds exactly when the URL parses and its
  network location is the domain of the crawl or ends with a dot and that domain; a URL
  that does not parse is not in the domain. For the domain \<open>example.edu\<close> the test
  holds for \<open>https://cs.example.edu/x\<close> and fails for \<open>https://notexample.edu/x\<close>.
  No URL that the link resolver returns contains the fragment sign.
\<close>

theorem domain_test:
  "(is_same_domain L d url \<longleftrightarrow>
      (\<exists>nl. netloc_of L url = Some nl \<and> (nl = d \<or> (\<exists>sub. nl = sub @ CHR ''.'' # d))))
   \<and> (netloc_of L url = None \<longrightarrow> \<not> is_same_domain L d url)
   \<and> is_same_domain absolute_lib ''example.edu'' ''https://cs.example.edu/x''
   \<and> \<not> is_same_domain absolute_lib ''example.edu'' ''https://notexample.edu/x''
   \<and> (get_links L d soup base = Inr links \<longrightarrow> (\<forall>u \<in> set links. CHR ''#'' \<notin> set u))"
proof -
  have a: "is_same_domain L d url \<longleftrightarrow>
      (\<exists>nl. netloc_of L url = Some nl \<and> (nl = d \<or> (\<exists>sub. nl = sub @ CHR ''.'' # d)))"
    by (cases "netloc_of L url") (simp_all add: is_same_domain_def endswith_iff)
  have b: "netloc_of L url = None \<longrightarrow> \<not> is_same_domain L d url"
    by (simp add: is_same_domain_def)
  have c: "is_same_domain absolute_lib ''example.edu'' ''https://cs.example.edu/x''"
    by code_simp
  have e: "\<not> is_same_domain absolute_lib ''example.edu'' ''https://notexample.edu/x''"
    by code_simp
  have f: "get_links L d soup base = Inr links \<longrightarrow> (\<forall>u \<in> set links. CHR ''#'' \<notin> set u)"
    using collect_links_no_fragment by (auto simp: get_links_def)
  from a b c e f show ?thesis by blast
qed

theorem domain_test_witness:
  "netloc_of absolute_lib ''https://[example.edu/x'' = None
   \<and> \<not> is_same_domain absolute_lib ''example.edu'' ''https://[example.edu/x''
   \<and> netloc_of absolute_lib ''https://cs.example.edu/x'' = Some ''cs.example.edu''
   \<and> is_same_domain absolute_lib ''example.edu'' ''https://cs.example.edu/x''
   \<and> get_links absolute_lib ''example.edu'' fragment_page ''https://example.edu/'' = Inr [''https://example.edu/staff'']
   \<and> CHR ''#'' \<notin> set ''https://example.edu/staff''"
proof -
  have a: "netloc_of absolute_lib ''https://[example.edu/x'' = None" by code_simp
  have b: "netloc_of absolute_lib ''https://cs.example.edu/x'' = Some ''cs.example.edu''" by code_simp
  have c: "get_links absolute_lib ''example.edu'' fragment_page ''https://example.edu/'' = Inr [''https://example.edu/staff'']"
    by code_simp
  note t1 = domain_test [of absolute_lib "''example.edu''" "''https://[example.edu/x''" fragment_page
      "''https://example.edu/''" "[''https://example.edu/staff'']"]
  note t2 = domain_test [of absolute_lib "''example.edu''" "''https://cs.example.edu/x''" fragment_page
      "''https://example.edu/''" "[''https://example.edu/staff'']"]
  from t1 a have d: "\<not> is_same_domain absolute_lib ''example.edu'' ''https://[example.edu/x''" by blast
  from t2 have e: "is_same_domain absolute_lib ''example.edu'' ''https://cs.example.edu/x''" by blast
  from t1 c have "\<forall>u \<in> set [''https://example.edu/staff'']. CHR ''#'' \<notin> set u" by blast
  then have f: "CHR ''#'' \<notin> set ''https://example.edu/staff''" by simp
  from a b c d e f show ?thesis by blast
qed

section \<open>Properties of the phone extractor\<close>

subsection \<open>The matcher\<close>

lemma first_some_Some: "first_some xs = Some y \<Longrightarrow> Some y \<in> set xs"
  by (induction xs rule: first_some.induct) auto

lemma take_within_takeWhile:
  assumes "k \<le> length (takeWhile P s)"
  shows "list_all P (take k s)"
proof -
  have "take k s = take k (take (length (takeWhile P s)) s)"
    using assms by (simp add: min_def)
  also have "\<dots> = take k (takeWhile P s)"
    by (simp add: takeWhile_eq_take [symmetric])
  finally have "set (take k s) \<subseteq> set (takeWhile P s)"
    by (simp add: set_take_subset)
  then show ?thesis
    by (auto simp: list_all_iff dest: set_takeWhileD)
qed

lemma rmatch_sound:
  "rmatch items s = Some n \<Longrightarrow> n \<le> length s \<and> matches items (take n s)"
proof (induction items arbitrary: s n)
  case Nil
  then show ?case by (simp add: matches_nil)
next
  case (Cons it items)
  obtain P lo hi where it: "it = (P, lo, hi)" by (cases it)
  define avail where "avail = length (takeWhile P s)"
  define top where "top = (case hi of None \<Rightarrow> avail | Some h \<Rightarrow> min h avail)"
  have "rmatch ((P, lo, hi) # items) s =
      first_some (map (\<lambda>k. map_option (\<lambda>n. k + n) (rmatch items (drop k s))) (rev [lo ..< Suc top]))"
    by (simp only: rmatch.simps Let_def avail_def top_def)
  with Cons.prems it have
    "first_some (map (\<lambda>k. map_option (\<lambda>n. k + n) (rmatch items (drop k s))) (rev [lo ..< Suc top]))
       = Some n"
    by simp
  from first_some_Some [OF this] have
    "Some n \<in> (\<lambda>k. map_option (\<lambda>n. k + n) (rmatch items (drop k s))) ` {lo ..< Suc top}"
    by (simp only: set_map set_rev set_upt)
  then obtain k where k0: "lo \<le> k" "k < Suc top"
    and "Some n = map_option (\<lambda>n. k + n) (rmatch items (drop k s))"
    by auto
  then have k: "lo \<le> k" "k \<le> top"
    and "map_option (\<lambda>n. k + n) (rmatch items (drop k s)) = Some n"
    by simp_all
  then obtain n' where n': "rmatch items (drop k s) = Some n'" "n = k + n'"
    by auto
  from Cons.IH [OF n'(1)] have ih: "n' \<le> length (drop k s)" "matches items (take n' (drop k s))"
    by auto
  have ka: "k \<le> avail" using k(2) by (auto simp: top_def split: option.splits)
  have kl: "k \<le> length s"
    using ka length_takeWhile_le [of P s] by (simp add: avail_def)
  have allP: "list_all P (take k s)"
    using ka unfolding avail_def by (rule take_within_takeWhile)
  have hib: "case hi of None \<Rightarrow> True | Some h \<Rightarrow> length (take k s) \<le> h"
    using k(2) kl by (auto simp: top_def split: option.splits)
  have lob: "lo \<le> length (take k s)" using k(1) kl by simp
  have split: "take n s = take k s @ take n' (drop k s)"
    by (simp add: n'(2) take_add)
  have "matches ((P, lo, hi) # items) (take k s @ take n' (drop k s))"
    using allP lob hib ih(2) by (rule matches_item)
  with split it have "matches (it # items) (take n s)" by simp
  moreover from ih(1) kl n'(2) have "n \<le> length s" by simp
  ultimately show ?case by simp
qed

lemma findall_segments:
  "m \<in> set (findall re str) \<Longrightarrow>
     \<exists>pre post. str = pre @ m @ post \<and> rmatch re (m @ post) = Some (length m)"
proof (induction re str rule: findall.induct)
  case (1 re)
  then show ?case by simp
next
  case (2 re c cs)
  show ?case
  proof (cases "rmatch re (c # cs)")
    case None
    with "2.prems" have "m \<in> set (findall re cs)" by simp
    from "2.IH"(1) None this obtain pre post where
      "cs = pre @ m @ post" "rmatch re (m @ post) = Some (length m)" by blast
    then have "c # cs = (c # pre) @ m @ post \<and> rmatch re (m @ post) = Some (length m)" by simp
    then show ?thesis by blast
  next
    case (Some n)
    from rmatch_sound [OF Some] have nl: "n \<le> length (c # cs)" by simp
    from Some "2.prems" consider "m = take n (c # cs)" | "m \<in> set (findall re (drop (n - 1) cs))"
      by auto
    then show ?thesis
    proof cases
      case 1
      with nl have "length m = n" by simp
      moreover from 1 have "c # cs = [] @ m @ drop n (c # cs)" by simp
      ultimately have "c # cs = [] @ m @ drop n (c # cs)
          \<and> rmatch re (m @ drop n (c # cs)) = Some (length m)"
        using Some 1 by simp
      then show ?thesis by blast
    next
      case 2
      from "2.IH"(2) Some this obtain pre post where
        d: "drop (n - 1) cs = pre @ m @ post" and r: "rmatch re (m @ post) = Some (length m)"
        by blast
      have "c # cs = (c # take (n - 1) cs) @ drop (n - 1) cs" by simp
      with d have "c # cs = (c # take (n - 1) cs @ pre) @ m @ post" by simp
      with r show ?thesis by blast
    qed
  qed
qed

subsection \<open>The shape of a phone match\<close>

lemma plus_no_digit: "\<not> is_digit CHR ''+''"
  by code_simp

lemma digit_inner: "is_digit c \<Longrightarrow> phone_inner c"
  by (simp add: phone_inner_def)

lemma phone_match_shape:
  assumes "matches phone_re m"
  shows "phone_shape m"
proof -
  from assms obtain u0 u1 u2 u3 where m: "m = u0 @ u1 @ u2 @ u3"
    and u0: "list_all (\<lambda>c. c = CHR ''+'') u0" "length u0 \<le> 1"
    and u1: "list_all is_digit u1" "length u1 = 1"
    and u2: "list_all phone_inner u2" "5 \<le> length u2"
    and u3: "list_all is_digit u3" "length u3 = 1"
    unfolding phone_re_def by (auto elim!: matches_ConsE matches_NilE)
  from u1 obtain d where d: "u1 = [d]" "is_digit d"
    by (cases u1) auto
  from u3 obtain e where e: "u3 = [e]" "is_digit e"
    by (cases u3) auto
  let ?body = "d # u2 @ [e]"
  have body: "7 \<le> length ?body \<and> is_digit (hd ?body) \<and> is_digit (last ?body)
      \<and> list_all phone_inner ?body"
    using u2 d e by (simp add: digit_inner)
  have "(if m \<noteq> [] \<and> hd m = CHR ''+'' then tl m else m) = ?body"
  proof (cases u0)
    case Nil
    with m d e have "m = ?body" by simp
    moreover from d(2) plus_no_digit have "d \<noteq> CHR ''+''" by auto
    ultimately show ?thesis by simp
  next
    case (Cons p ps)
    with u0 have "u0 = [CHR ''+'']" by simp
    with m d e show ?thesis by simp
  qed
  with body show ?thesis by (simp add: phone_shape_def Let_def)
qed

subsection \<open>White-space normal form\<close>

lemma tidy_tl: "tidy (c # cs) \<Longrightarrow> tidy cs"
  by (cases cs) auto

lemma tidy_dropWhile: "tidy s \<Longrightarrow> tidy (dropWhile P s)"
  by (induction s) (auto dest: tidy_tl)

lemma tidy_prefix: "tidy (xs @ ys) \<Longrightarrow> tidy xs"
proof (induction xs rule: tidy.induct)
  case 1
  then show ?case by simp
next
  case (2 c)
  then show ?case by (cases ys) auto
next
  case (3 c d cs)
  then show ?case by auto
qed

lemma rstrip_prefix: "rstrip s @ rev (takeWhile is_space (rev s)) = s"
proof -
  have "rev (takeWhile is_space (rev s) @ dropWhile is_space (rev s)) = s"
    by simp
  then show ?thesis by (simp add: rstrip_def del: takeWhile_dropWhile_id)
qed

lemma tidy_rstrip: "tidy s \<Longrightarrow> tidy (rstrip s)"
  using tidy_prefix [of "rstrip s" "rev (takeWhile is_space (rev s))"] by (simp add: rstrip_prefix)

lemma tidy_strip: "tidy s \<Longrightarrow> tidy (strip s)"
  by (simp add: strip_def lstrip_def tidy_rstrip tidy_dropWhile)

lemma collapse_ws_tidy:
  "tidy (collapse_ws b s) \<and> (b \<longrightarrow> collapse_ws b s = [] \<or> \<not> is_space (hd (collapse_ws b s)))"
proof (induction s arbitrary: b)
  case Nil
  then show ?case by simp
next
  case (Cons c cs)
  show ?case
  proof (cases "is_space c")
    case True
    from Cons [of True] have t: "tidy (collapse_ws True cs)"
      and h: "collapse_ws True cs = [] \<or> \<not> is_space (hd (collapse_ws True cs))" by auto
    from t h have "tidy (CHR '' '' # collapse_ws True cs)"
      by (cases "collapse_ws True cs") auto
    with True t h show ?thesis by simp
  next
    case False
    from Cons [of False] have t: "tidy (collapse_ws False cs)" by simp
    with False have "tidy (c # collapse_ws False cs)"
      by (cases "collapse_ws False cs") auto
    with False show ?thesis by simp
  qed
qed

lemma collapse_ws_fixed: "tidy s \<Longrightarrow> collapse_ws False s = s"
proof (induction s rule: tidy.induct)
  case 1
  then show ?case by simp
next
  case (2 c)
  then show ?case by simp
next
  case (3 c d cs)
  then show ?case by auto
qed

lemma lstrip_fixed: "s = [] \<or> \<not> is_space (hd s) \<Longrightarrow> lstrip s = s"
  by (cases s) (auto simp: lstrip_def)

lemma rstrip_idem: "rstrip (rstrip s) = rstrip s"
  by (simp add: rstrip_def)

lemma lstrip_head: "lstrip s = [] \<or> \<not> is_space (hd (lstrip s))"
  unfolding lstrip_def by (metis hd_dropWhile)

lemma rstrip_head: "s = [] \<or> \<not> is_space (hd s) \<Longrightarrow> rstrip s = [] \<or> \<not> is_space (hd (rstrip s))"
proof -
  assume a: "s = [] \<or> \<not> is_space (hd s)"
  show ?thesis
  proof (cases "rstrip s")
    case Nil
    then show ?thesis by simp
  next
    case (Cons x xs)
    with rstrip_prefix [of s] have "hd s = x" by (metis hd_append2 list.sel(1) list.distinct(1))
    moreover from Cons rstrip_prefix [of s] have "s \<noteq> []" by auto
    ultimately show ?thesis using a Cons by simp
  qed
qed

lemma strip_idem: "strip (strip s) = strip s"
proof -
  have "lstrip (strip s) = strip s"
    unfolding strip_def by (rule lstrip_fixed) (rule rstrip_head, rule lstrip_head)
  then show ?thesis by (simp add: strip_def rstrip_idem)
qed

lemma normalize_text_clean: "normalize_text (strip (collapse_ws False p)) = strip (collapse_ws False p)"
proof -
  have "tidy (strip (collapse_ws False p))"
    using collapse_ws_tidy [of False p] by (simp add: tidy_strip)
  then have "collapse_ws False (strip (collapse_ws False p)) = strip (collapse_ws False p)"
    by (rule collapse_ws_fixed)
  then show ?thesis by (simp add: normalize_text_def strip_idem)
qed

subsection \<open>Keys in insertion order\<close>

lemma fromkeys_snoc: "fromkeys (xs @ [x]) = insert_key (fromkeys xs) x"
  by (simp add: fromkeys_def)

lemma set_fromkeys: "set (fromkeys xs) = set xs"
  by (induction xs rule: rev_induct) (auto simp: fromkeys_snoc insert_key_def fromkeys_def)

lemma distinct_fromkeys: "distinct (fromkeys xs)"
  by (induction xs rule: rev_induct) (auto simp: fromkeys_snoc insert_key_def fromkeys_def)

lemma first_seen_snoc_old: "a \<in> set xs \<Longrightarrow> first_seen a (xs @ [x]) = first_seen a xs"
  by (simp add: first_seen_def takeWhile_append1)

lemma first_seen_less: "a \<in> set xs \<Longrightarrow> first_seen a xs < length xs"
  unfolding first_seen_def by (induction xs) auto

lemma first_seen_snoc_new:
  assumes "x \<notin> set xs"
  shows "first_seen x (xs @ [x]) = length xs"
proof -
  from assms have "\<forall>y \<in> set xs. y \<noteq> x" by auto
  then have "takeWhile (\<lambda>y. y \<noteq> x) (xs @ [x]) = xs @ takeWhile (\<lambda>y. y \<noteq> x) [x]"
    by (simp add: takeWhile_append2)
  then show ?thesis by (simp add: first_seen_def)
qed

lemma fromkeys_order: "sorted_wrt (\<lambda>a b. first_seen a xs < first_seen b xs) (fromkeys xs)"
proof (induction xs rule: rev_induct)
  case Nil
  then show ?case by (simp add: fromkeys_def)
next
  case (snoc x xs)
  have old: "sorted_wrt (\<lambda>a b. first_seen a (xs @ [x]) < first_seen b (xs @ [x])) (fromkeys xs)"
    using snoc
    by (rule sorted_wrt_mono_rel [rotated]) (simp add: set_fromkeys first_seen_snoc_old)
  show ?case
  proof (cases "x \<in> set xs")
    case True
    with old show ?thesis by (simp add: fromkeys_snoc insert_key_def set_fromkeys)
  next
    case False
    have "\<forall>a \<in> set (fromkeys xs). first_seen a (xs @ [x]) < first_seen x (xs @ [x])"
      using False by (simp add: set_fromkeys first_seen_snoc_old first_seen_snoc_new first_seen_less)
    with old False show ?thesis
      by (simp add: fromkeys_snoc insert_key_def set_fromkeys sorted_wrt_append)
  qed
qed

subsection \<open>The phone extractor\<close>

text \<open>
  C8 (phone extraction). As the claim states it, it fails: a returned text need not have
  seven characters, nor seven digits. The match \<open>1     2\<close> is a digit, five spaces and
  a digit; its spaces collapse and \<open>1 2\<close> is returned. \<open>12-34-56\<close> is returned with
  its six digits.
\<close>

theorem extract_phones_short_match:
  "''1 2'' \<in> set (extract_phones ''call 1     2'')
   \<and> length ''1 2'' < 7 \<and> length (filter is_digit ''1 2'') < 7
   \<and> ''12-34-56'' \<in> set (extract_phones ''12-34-56'')
   \<and> length (filter is_digit ''12-34-56'') < 7"
  by code_simp

text \<open>
  C8, amended. Every returned text is the white-space normal form of a part of the input
  that has the shape of a phone match, and normalising it again changes nothing. The
  list has no duplicates, holds exactly the cleaned matches, and is in the order in which
  they are first seen.
\<close>

theorem extract_phones_matches:
  "(\<forall>r \<in> set (extract_phones text).
      \<exists>pre m post. text = pre @ m @ post \<and> phone_shape m \<and> r = clean_phone m \<and> normalize_text r = r)
   \<and> distinct (extract_phones text)
   \<and> set (extract_phones text) = set (map clean_phone (findall phone_re text))
   \<and> sorted_wrt (\<lambda>a b. first_seen a (map clean_phone (findall phone_re text))
                       < first_seen b (map clean_phone (findall phone_re text)))
       (extract_phones text)"
proof -
  have a: "\<forall>r \<in> set (extract_phones text).
      \<exists>pre m post. text = pre @ m @ post \<and> phone_shape m \<and> r = clean_phone m \<and> normalize_text r = r"
  proof
    fix r
    assume "r \<in> set (extract_phones text)"
    then obtain m where m: "m \<in> set (findall phone_re text)" and r: "r = clean_phone m"
      by (auto simp: extract_phones_def set_fromkeys)
    from findall_segments [OF m] obtain pre post where
      t: "text = pre @ m @ post" and rm: "rmatch phone_re (m @ post) = Some (length m)"
      by blast
    from rmatch_sound [OF rm] have "matches phone_re m" by simp
    then have "phone_shape m" by (rule phone_match_shape)
    moreover have "normalize_text r = r"
      unfolding r clean_phone_def by (rule normalize_text_clean)
    ultimately show "\<exists>pre m post. text = pre @ m @ post \<and> phone_shape m \<and> r = clean_phone m
        \<and> normalize_text r = r"
      using t r by blast
  qed
  have b: "distinct (extract_phones text)"
    by (simp add: extract_phones_def distinct_fromkeys)
  have c: "set (extract_phones text) = set (map clean_phone (findall phone_re text))"
    by (simp only: extract_phones_def set_fromkeys)
  have d: "sorted_wrt (\<lambda>a b. first_seen a (map clean_phone (findall phone_re text))
                       < first_seen b (map clean_phone (findall phone_re text)))
       (extract_phones text)"
    unfolding extract_phones_def by (rule fromkeys_order)
  from a b c d show ?thesis by blast
qed

theorem extract_phones_matches_witness:
  "extract_phones ''+880 1234 567890, 555  0100, +880 1234 567890'' = [''+880 1234 567890'', ''555 0100'']
   \<and> normalize_text ''+880 1234 567890'' = ''+880 1234 567890''
   \<and> normalize_text ''555 0100'' = ''555 0100''
   \<and> phone_shape ''555  0100'' \<and> clean_phone ''555  0100'' = ''555 0100''"
proof -
  have a: "extract_phones ''+880 1234 567890, 555  0100, +880 1234 567890'' = [''+880 1234 567890'', ''555 0100'']"
    by code_simp
  have b: "phone_shape ''555  0100'' \<and> clean_phone ''555  0100'' = ''555 0100''"
    by code_simp
  from extract_phones_matches [of "''+880 1234 567890, 555  0100, +880 1234 567890''"]
  have "\<forall>r \<in> set (extract_phones ''+880 1234 567890, 555  0100, +880 1234 567890''). normalize_text r = r"
    by blast
  with a have c: "normalize_text ''+880 1234 567890'' = ''+880 1234 567890''
      \<and> normalize_text ''555 0100'' = ''555 0100''"
    by simp
  from a b c show ?thesis by blast
qed

section \<open>Properties of the crawl loop\<close>

subsection \<open>One fetch\<close>

lemma fetch_tls_failure:
  assumes "first_answer C url s = SSLError"
  shows "fetch C url s =
     (page_of (retry_answer C url s),
      s\<lparr>verify := False, requests := requests s @ [first_request url s, retry_request url]\<rparr>)"
proof -
  have 1: "send C url False s = (SSLError, s\<lparr>requests := requests s @ [first_request url s]\<rparr>)"
    using assms by (simp add: send_def first_answer_def first_request_def)
  have 2: "send C url True (s\<lparr>requests := requests s @ [first_request url s], verify := False\<rparr>) =
      (retry_answer C url s,
       s\<lparr>verify := False, requests := requests s @ [first_request url s, retry_request url]\<rparr>)"
    by (simp add: send_def retry_answer_def retry_request_def)
  show ?thesis
    by (cases "retry_answer C url s") (simp_all add: fetch_def 1 2 page_of_def)
qed

lemma fetch_no_tls_failure:
  assumes "first_answer C url s \<noteq> SSLError"
  shows "fetch C url s =
     (page_of (first_answer C url s), s\<lparr>requests := requests s @ [first_request url s]\<rparr>)"
proof -
  have 1: "send C url False s =
      (first_answer C url s, s\<lparr>requests := requests s @ [first_request url s]\<rparr>)"
    by (simp add: send_def first_answer_def first_request_def)
  from assms show ?thesis
    by (cases "first_answer C url s") (simp_all add: fetch_def 1 page_of_def)
qed

subsection \<open>One pass through the loop body\<close>

lemma process_page_final:
  "\<exists>qu rs. final_state (process_page C limit url soup s) = s\<lparr>queue := qu, results := rs\<rparr>
     \<and> (qu = queue s \<or> (\<exists>links. qu = enqueue_links (seen s) limit (queue s) links))"
proof (cases "get_links (lib C) (domain C) soup url")
  case (Inl e)
  then have "final_state (process_page C limit url soup s) = s\<lparr>queue := queue s, results := results s\<rparr>"
    by (simp add: process_page_def)
  then show ?thesis by blast
next
  case (Inr links)
  let ?s1 = "s\<lparr>queue := enqueue_links (seen s) limit (queue s) links\<rparr>"
  have "final_state (process_page C limit url soup s) = ?s1\<lparr>results := results s\<rparr>
      \<or> (\<exists>p. final_state (process_page C limit url soup s) = ?s1\<lparr>results := results s @ [p]\<rparr>)"
    using Inr by (auto simp: process_page_def Let_def split: sum.splits option.splits)
  then have "\<exists>rs. final_state (process_page C limit url soup s) =
      s\<lparr>queue := enqueue_links (seen s) limit (queue s) links, results := rs\<rparr>"
  proof
    assume "final_state (process_page C limit url soup s) = ?s1\<lparr>results := results s\<rparr>"
    then show ?thesis by (intro exI [of _ "results s"]) simp
  next
    assume "\<exists>p. final_state (process_page C limit url soup s) = ?s1\<lparr>results := results s @ [p]\<rparr>"
    then obtain p where "final_state (process_page C limit url soup s) = ?s1\<lparr>results := results s @ [p]\<rparr>" ..
    then show ?thesis by (intro exI [of _ "results s @ [p]"]) simp
  qed
  then show ?thesis by blast
qed

lemma after_fetch_eq:
  "after_fetch C url s =
     (if first_answer C url s = SSLError
      then s\<lparr>seen := finsert url (seen s), verify := False,
             requests := requests s @ [first_request url s, retry_request url]\<rparr>
      else s\<lparr>seen := finsert url (seen s), requests := requests s @ [first_request url s]\<rparr>)"
proof -
  let ?s = "s\<lparr>seen := finsert url (seen s)\<rparr>"
  have a: "first_answer C url ?s = first_answer C url s" by (simp add: first_answer_def)
  have b: "first_request url ?s = first_request url s" by (simp add: first_request_def)
  show ?thesis
  proof (cases "first_answer C url s = SSLError")
    case True
    with a have "first_answer C url ?s = SSLError" by simp
    from fetch_tls_failure [OF this] True b show ?thesis by (simp add: after_fetch_def)
  next
    case False
    with a have "first_answer C url ?s \<noteq> SSLError" by simp
    from fetch_no_tls_failure [OF this] False b show ?thesis by (simp add: after_fetch_def)
  qed
qed

lemma iteration_final:
  assumes "url |\<notin>| seen s"
  shows "\<exists>qu rs. final_state (iteration C limit url s) = (after_fetch C url s)\<lparr>queue := qu, results := rs\<rparr>
     \<and> (qu = queue s \<or> (\<exists>links. qu = enqueue_links (finsert url (seen s)) limit (queue s) links))"
proof -
  obtain r s1 where f: "fetch C url (s\<lparr>seen := finsert url (seen s)\<rparr>) = (r, s1)"
    by (cases "fetch C url (s\<lparr>seen := finsert url (seen s)\<rparr>)")
  then have s1: "s1 = after_fetch C url s" by (simp add: after_fetch_def)
  have q1: "queue s1 = queue s" and n1: "seen s1 = finsert url (seen s)"
    and r1: "results s1 = results s"
    using fetch_frame [OF f] by simp_all
  have plain: "s1 = s1\<lparr>queue := queue s, results := results s\<rparr>"
    using q1 r1 by simp
  show ?thesis
  proof (cases r)
    case None
    with assms f have "final_state (iteration C limit url s) = s1" by (simp add: iteration_def)
    with plain s1 show ?thesis by metis
  next
    case (Some resp)
    obtain st ct soup where resp: "resp = (st, ct, soup)" by (cases resp)
    show ?thesis
    proof (cases "st \<noteq> 200 \<or> \<not> contains ct ''text/html''")
      case True
      with assms f Some resp have "final_state (iteration C limit url s) = s1"
        by (simp add: iteration_def)
      with plain s1 show ?thesis by metis
    next
      case False
      with assms f Some resp have
        "final_state (iteration C limit url s) = final_state (process_page C limit url soup s1)"
        by (simp add: iteration_def)
      with process_page_final [of C limit url soup s1] q1 n1 s1 show ?thesis by auto
    qed
  qed
qed

lemma iteration_seen_before: "url |\<in>| seen s \<Longrightarrow> iteration C limit url s = Inr s"
  by (simp add: iteration_def)

subsection \<open>Invariants of the loop\<close>

lemma crawl_loop_invariant:
  assumes step: "\<And>s url rest. Inv s \<Longrightarrow> queue s = url # rest \<Longrightarrow>
      int (fcard (seen s)) < limit \<Longrightarrow> length (results s) < 10000 \<Longrightarrow>
      Inv (final_state (iteration C limit url (s\<lparr>queue := rest, passes := Suc (passes s)\<rparr>)))"
    and init: "Inv s"
  shows "Inv (final_state (crawl_loop C limit s))"
  using init step
proof (induction C limit s rule: crawl_loop.induct)
  case (1 C limit s)
  note inv0 = "1.prems"(1) and stp = "1.prems"(2)
  show ?case
  proof (cases "queue s")
    case Nil
    with inv0 show ?thesis by (simp add: crawl_loop.simps [of C limit s])
  next
    case (Cons url rest)
    show ?thesis
    proof (cases "int (fcard (seen s)) < limit \<and> length (results s) < 10000")
      case False
      with Cons inv0 show ?thesis by (auto simp: crawl_loop.simps [of C limit s])
    next
      case True
      let ?it = "iteration C limit url (s\<lparr>queue := rest, passes := Suc (passes s)\<rparr>)"
      from True have g: "int (fcard (seen s)) < limit" "length (results s) < 10000" by simp_all
      have inv: "Inv (final_state ?it)" by (rule stp [OF inv0 Cons g])
      show ?thesis
      proof (cases ?it)
        case (Inl e)
        with Cons True have "crawl_loop C limit s = Inl e"
          by (simp add: crawl_loop.simps [of C limit s])
        with inv Inl show ?thesis by simp
      next
        case (Inr s1)
        with Cons True have eq: "crawl_loop C limit s = crawl_loop C limit s1"
          by (simp add: crawl_loop.simps [of C limit s])
        from inv Inr have "Inv s1" by simp
        then have "Inv (final_state (crawl_loop C limit s1))"
          by (rule "1.IH" [OF Cons True Inr]) (rule stp)
        with eq show ?thesis by simp
      qed
    qed
  qed
qed

subsection \<open>The visited set and the requests\<close>

lemma fetched_after_fetch: "fetched (after_fetch C url s) = fetched s @ [url]"
  by (simp add: after_fetch_eq fetched_def first_request_def retry_request_def)

lemma iteration_new_url:
  assumes "url |\<notin>| seen s"
  shows "seen (final_state (iteration C limit url s)) = finsert url (seen s)"
    and "fetched (final_state (iteration C limit url s)) = fetched s @ [url]"
    and "passes (final_state (iteration C limit url s)) = passes s"
proof -
  from iteration_final [OF assms] obtain qu rs where
    f: "final_state (iteration C limit url s) = (after_fetch C url s)\<lparr>queue := qu, results := rs\<rparr>"
    by blast
  show "seen (final_state (iteration C limit url s)) = finsert url (seen s)"
    unfolding f by (simp add: after_fetch_eq)
  have "fetched ((after_fetch C url s)\<lparr>queue := qu, results := rs\<rparr>) = fetched (after_fetch C url s)"
    by (simp add: fetched_def)
  then show "fetched (final_state (iteration C limit url s)) = fetched s @ [url]"
    unfolding f by (simp add: fetched_after_fetch)
  show "passes (final_state (iteration C limit url s)) = passes s"
    unfolding f by (simp add: after_fetch_eq)
qed

lemma iteration_seen_grows: "seen s |\<subseteq>| seen (final_state (iteration C limit url s))"
proof (cases "url |\<in>| seen s")
  case True
  then show ?thesis by (simp add: iteration_seen_before)
next
  case False
  from iteration_new_url(1) [OF False] show ?thesis by auto
qed

lemma crawl_loop_seen_grows: "seen s |\<subseteq>| seen (final_state (crawl_loop C limit s))"
proof (rule crawl_loop_invariant [where Inv = "\<lambda>t. seen s |\<subseteq>| seen t"])
  show "seen s |\<subseteq>| seen s" by simp
next
  fix t :: crawl_state and url rest
  assume "seen s |\<subseteq>| seen t"
  moreover have "seen (t\<lparr>queue := rest, passes := Suc (passes t)\<rparr>)
      |\<subseteq>| seen (final_state (iteration C limit url (t\<lparr>queue := rest, passes := Suc (passes t)\<rparr>)))"
    by (rule iteration_seen_grows)
  ultimately show "seen s |\<subseteq>| seen (final_state (iteration C limit url
      (t\<lparr>queue := rest, passes := Suc (passes t)\<rparr>)))"
    by auto
qed

lemma crawl_loop_fetched_distinct:
  assumes "distinct (fetched s)" and "fset_of_list (fetched s) |\<subseteq>| seen s"
  shows "distinct (fetched (final_state (crawl_loop C limit s)))"
proof -
  let ?Inv = "\<lambda>t. distinct (fetched t) \<and> fset_of_list (fetched t) |\<subseteq>| seen t"
  have "?Inv (final_state (crawl_loop C limit s))"
  proof (rule crawl_loop_invariant [where Inv = ?Inv])
    show "?Inv s" using assms by simp
  next
    fix t :: crawl_state and url rest
    assume inv: "?Inv t"
    let ?t = "t\<lparr>queue := rest, passes := Suc (passes t)\<rparr>"
    have same: "fetched ?t = fetched t" "seen ?t = seen t" by (simp_all add: fetched_def)
    show "?Inv (final_state (iteration C limit url ?t))"
    proof (cases "url |\<in>| seen t")
      case True
      with inv same show ?thesis by (simp add: iteration_seen_before)
    next
      case False
      then have new: "url |\<notin>| seen ?t" by simp
      from inv False have "url \<notin> set (fetched t)"
        by (auto simp: fset_of_list_elem)
      with inv iteration_new_url(1,2) [OF new, of C limit] same show ?thesis
        by (auto simp: fset_of_list_elem)
    qed
  qed
  then show ?thesis by simp
qed

subsection \<open>The queue\<close>

lemma enqueue_links_stop:
  "limit \<le> int (fcard sn) + int (length qu) \<Longrightarrow> enqueue_links sn limit qu links = qu"
  by (induction links) auto

lemma enqueue_links_bound:
  "int (fcard sn) + int (length (enqueue_links sn limit qu links))
     \<le> max limit (int (fcard sn) + int (length qu))"
proof (induction links arbitrary: qu)
  case Nil
  then show ?case by simp
next
  case (Cons link links)
  show ?case
  proof (cases "link |\<notin>| sn \<and> \<not> limit \<le> int (fcard sn) + int (length qu)")
    case False
    with Cons [of qu] show ?thesis by auto
  next
    case True
    let ?qu = "if is_potential_relevant link then link # qu else qu @ [link]"
    from True have "enqueue_links sn limit qu (link # links) = enqueue_links sn limit ?qu links"
      by simp
    moreover have "length ?qu = Suc (length qu)" by simp
    moreover note Cons [of ?qu]
    ultimately show ?thesis using True by (simp add: max_def split: if_splits)
  qed
qed

lemma enqueue_links_lanes_eq:
  "enqueue_links sn limit qu links =
     rev (filter is_potential_relevant (accepted sn limit (length qu) links)) @ qu
       @ filter (\<lambda>l. \<not> is_potential_relevant l) (accepted sn limit (length qu) links)"
proof (induction links arbitrary: qu)
  case Nil
  then show ?case by (simp add: accepted_def)
next
  case (Cons link links)
  show ?case
  proof (cases "link |\<notin>| sn")
    case False
    with Cons [of qu] show ?thesis by (simp add: accepted_def)
  next
    case new: True
    show ?thesis
    proof (cases "limit \<le> int (fcard sn) + int (length qu)")
      case True
      then have "nat (limit - int (fcard sn) - int (length qu)) = 0" by simp
      with new True show ?thesis by (simp add: accepted_def)
    next
      case False
      let ?qu = "if is_potential_relevant link then link # qu else qu @ [link]"
      let ?A = "accepted sn limit (Suc (length qu)) links"
      from False obtain k where k: "nat (limit - int (fcard sn) - int (length qu)) = Suc k"
        by (cases "nat (limit - int (fcard sn) - int (length qu))") auto
      then have k': "nat (limit - int (fcard sn) - int (Suc (length qu))) = k" by simp
      from new k k' have acc: "accepted sn limit (length qu) (link # links) = link # ?A"
        by (simp add: accepted_def)
      from new False have "enqueue_links sn limit qu (link # links) = enqueue_links sn limit ?qu links"
        by simp
      also have "\<dots> = rev (filter is_potential_relevant ?A) @ ?qu
          @ filter (\<lambda>l. \<not> is_potential_relevant l) ?A"
        using Cons [of ?qu] by simp
      finally show ?thesis unfolding acc by simp
    qed
  qed
qed

lemma lanes_two_parts:
  assumes "list_all is_potential_relevant rs" and "list_all (\<lambda>l. \<not> is_potential_relevant l) os"
  shows "lanes (rs @ os)"
proof -
  from assms(1) have "dropWhile is_potential_relevant (rs @ os) = dropWhile is_potential_relevant os"
    by (simp add: dropWhile_append2 list_all_iff)
  moreover from assms(2) have "list_all (\<lambda>l. \<not> is_potential_relevant l) (dropWhile is_potential_relevant os)"
    by (auto simp: list_all_iff dest: set_dropWhileD)
  ultimately show ?thesis by (simp add: lanes_def)
qed

lemma lanes_parts:
  assumes "lanes qu"
  shows "\<exists>rs os. qu = rs @ os \<and> list_all is_potential_relevant rs
     \<and> list_all (\<lambda>l. \<not> is_potential_relevant l) os"
proof -
  have "qu = takeWhile is_potential_relevant qu @ dropWhile is_potential_relevant qu" by simp
  moreover have "list_all is_potential_relevant (takeWhile is_potential_relevant qu)"
    by (auto simp: list_all_iff dest: set_takeWhileD)
  moreover from assms have "list_all (\<lambda>l. \<not> is_potential_relevant l) (dropWhile is_potential_relevant qu)"
    by (simp add: lanes_def)
  ultimately show ?thesis by blast
qed

lemma lanes_enqueue_links:
  assumes "lanes qu"
  shows "lanes (enqueue_links sn limit qu links)"
proof -
  from lanes_parts [OF assms] obtain rs os where qu: "qu = rs @ os"
    and rs: "list_all is_potential_relevant rs" and os: "list_all (\<lambda>l. \<not> is_potential_relevant l) os"
    by blast
  let ?A = "accepted sn limit (length qu) links"
  have "enqueue_links sn limit qu links =
      (rev (filter is_potential_relevant ?A) @ rs) @ (os @ filter (\<lambda>l. \<not> is_potential_relevant l) ?A)"
    using enqueue_links_lanes_eq [of sn limit "rs @ os" links] by (simp add: qu)
  moreover have "list_all is_potential_relevant (rev (filter is_potential_relevant ?A) @ rs)"
    using rs by (auto simp: list_all_iff)
  moreover have "list_all (\<lambda>l. \<not> is_potential_relevant l) (os @ filter (\<lambda>l. \<not> is_potential_relevant l) ?A)"
    using os by (auto simp: list_all_iff)
  ultimately show ?thesis by (simp only: lanes_two_parts)
qed

lemma lanes_tl: "lanes (u # qu) \<Longrightarrow> lanes qu"
proof (cases "is_potential_relevant u")
  case True
  assume "lanes (u # qu)"
  with True show ?thesis by (simp add: lanes_def)
next
  case False
  assume "lanes (u # qu)"
  with False have "list_all (\<lambda>l. \<not> is_potential_relevant l) qu" by (simp add: lanes_def)
  then have "list_all (\<lambda>l. \<not> is_potential_relevant l) (dropWhile is_potential_relevant qu)"
    by (auto simp: list_all_iff dest: set_dropWhileD)
  then show ?thesis by (simp add: lanes_def)
qed

lemma iteration_queue:
  "queue (final_state (iteration C limit url s)) = queue s
   \<or> (\<exists>sn links. queue (final_state (iteration C limit url s)) = enqueue_links sn limit (queue s) links)"
proof (cases "url |\<in>| seen s")
  case True
  then show ?thesis by (simp add: iteration_seen_before)
next
  case False
  from iteration_final [OF False] obtain qu rs where
    f: "final_state (iteration C limit url s) = (after_fetch C url s)\<lparr>queue := qu, results := rs\<rparr>"
    and q: "qu = queue s \<or> (\<exists>links. qu = enqueue_links (finsert url (seen s)) limit (queue s) links)"
    by blast
  from f have "queue (final_state (iteration C limit url s)) = qu" by simp
  with q show ?thesis by auto
qed

lemma crawl_loop_lanes:
  assumes "lanes (queue s)"
  shows "lanes (queue (final_state (crawl_loop C limit s)))"
proof (rule crawl_loop_invariant [where Inv = "\<lambda>t. lanes (queue t)"])
  show "lanes (queue s)" by (rule assms)
next
  fix t :: crawl_state and url rest
  assume "lanes (queue t)" and "queue t = url # rest"
  then have r: "lanes rest" using lanes_tl by simp
  let ?t = "t\<lparr>queue := rest, passes := Suc (passes t)\<rparr>"
  from iteration_queue [of C limit url ?t] r lanes_enqueue_links [OF r]
  show "lanes (queue (final_state (iteration C limit url ?t)))" by auto
qed

subsection \<open>The budget\<close>

lemma potential_step:
  assumes "a < M" and "q \<le> M" and "p + ((M - a) * (M + 1) + Suc r) \<le> B"
  shows "Suc p + ((M - Suc a) * (M + 1) + q) \<le> (B::nat)"
proof -
  from assms(1) obtain d where d: "M - a = Suc d" "M - Suc a = d"
    by (cases "M - a") auto
  define X where "X = d * (M + 1)"
  from assms(3) have "p + (X + (M + 1) + Suc r) \<le> B"
    by (simp add: d X_def)
  with assms(2) have "Suc p + (X + q) \<le> B" by arith
  then show ?thesis by (simp add: d X_def)
qed

lemma crawl_loop_budget:
  assumes "fcard (seen s) + length (queue s) \<le> max 1 (nat limit)"
    and "int (fcard (seen s)) \<le> max 0 limit"
  shows "passes (final_state (crawl_loop C limit s)) + potential limit (final_state (crawl_loop C limit s))
           \<le> passes s + potential limit s"
    and "int (fcard (seen (final_state (crawl_loop C limit s)))) \<le> max 0 limit"
    and "fcard (seen (final_state (crawl_loop C limit s))) + length (queue (final_state (crawl_loop C limit s)))
           \<le> max 1 (nat limit)"
proof -
  define B where "B = passes s + potential limit s"
  define M where "M = nat limit"
  let ?Inv = "\<lambda>t. fcard (seen t) + length (queue t) \<le> max 1 M \<and> int (fcard (seen t)) \<le> max 0 limit
     \<and> passes t + potential limit t \<le> B"
  have "?Inv (final_state (crawl_loop C limit s))"
  proof (rule crawl_loop_invariant [where Inv = ?Inv])
    show "?Inv s" using assms by (simp add: B_def M_def)
  next
    fix t :: crawl_state and url rest
    assume inv: "?Inv t" and q: "queue t = url # rest" and g: "int (fcard (seen t)) < limit"
    let ?t = "t\<lparr>queue := rest, passes := Suc (passes t)\<rparr>"
    let ?f = "final_state (iteration C limit url ?t)"
    define a where "a = fcard (seen t)"
    from g have aM: "a < M" by (simp add: a_def M_def)
    from inv q aM have sum: "a + Suc (length rest) \<le> M" by (simp add: a_def)
    from inv q have pot: "passes t + ((M - a) * (M + 1) + Suc (length rest)) \<le> B"
      by (simp add: potential_def a_def M_def)
    show "?Inv ?f"
    proof (cases "url |\<in>| seen t")
      case True
      then have f: "?f = ?t" by (simp add: iteration_seen_before)
      from inv sum pot show ?thesis
        unfolding f by (simp add: potential_def a_def M_def)
    next
      case False
      then have new: "url |\<notin>| seen ?t" by simp
      from iteration_final [OF new, of C limit] obtain qu rs where
        f: "?f = (after_fetch C url ?t)\<lparr>queue := qu, results := rs\<rparr>"
        and qu: "qu = queue ?t \<or> (\<exists>links. qu = enqueue_links (finsert url (seen ?t)) limit (queue ?t) links)"
        by blast
      have sn: "seen ?f = finsert url (seen t)" and ps: "passes ?f = Suc (passes t)"
        and qf: "queue ?f = qu"
        unfolding f by (simp_all add: after_fetch_eq)
      from False have card: "fcard (seen ?f) = Suc a"
        unfolding sn by (simp add: fcard_finsert_disjoint a_def)
      have len: "Suc a + length qu \<le> M"
      proof -
        from qu show ?thesis
        proof
          assume "qu = queue ?t"
          with sum show ?thesis by simp
        next
          assume "\<exists>links. qu = enqueue_links (finsert url (seen ?t)) limit (queue ?t) links"
          then obtain links where l: "qu = enqueue_links (finsert url (seen t)) limit rest links"
            by auto
          have "int (fcard (finsert url (seen t))) + int (length qu)
              \<le> max limit (int (fcard (finsert url (seen t))) + int (length rest))"
            unfolding l by (rule enqueue_links_bound)
          moreover from False have "fcard (finsert url (seen t)) = Suc a"
            by (simp add: fcard_finsert_disjoint a_def)
          moreover from sum have "int (Suc a) + int (length rest) \<le> limit"
            by (simp add: M_def)
          ultimately have "int (Suc a) + int (length qu) \<le> limit" by simp
          then show ?thesis by (simp add: M_def)
        qed
      qed
      then have "length qu \<le> M" by simp
      with aM have "Suc (passes t) + ((M - Suc a) * (M + 1) + length qu) \<le> B"
        using pot by (rule potential_step)
      then have p: "passes ?f + potential limit ?f \<le> B"
        by (simp add: potential_def card ps qf M_def)
      from len aM have "fcard (seen ?f) + length (queue ?f) \<le> max 1 M"
        and "int (fcard (seen ?f)) \<le> max 0 limit"
        by (simp_all add: card qf M_def)
      with p show ?thesis by simp
    qed
  qed
  then show "passes (final_state (crawl_loop C limit s)) + potential limit (final_state (crawl_loop C limit s))
           \<le> passes s + potential limit s"
    and "int (fcard (seen (final_state (crawl_loop C limit s)))) \<le> max 0 limit"
    and "fcard (seen (final_state (crawl_loop C limit s))) + length (queue (final_state (crawl_loop C limit s)))
           \<le> max 1 (nat limit)"
    by (simp_all add: B_def M_def)
qed

subsection \<open>The latch\<close>

lemma tls_failed_append: "i < length rs \<Longrightarrow> tls_failed C (rs @ xs) i = tls_failed C rs i"
  by (simp add: tls_failed_def nth_append)

lemma latch_inv_one:
  assumes "latch_inv C rs v" and "net C (length rs) url v \<noteq> SSLError"
  shows "latch_inv C (rs @ [\<lparr>req_url = url, req_verify = v, req_retry = False\<rparr>]) v"
proof -
  let ?rs = "rs @ [\<lparr>req_url = url, req_verify = v, req_retry = False\<rparr>]"
  have old: "\<And>i. i < length rs \<Longrightarrow> tls_failed C ?rs i \<Longrightarrow> \<not> v"
    using assms(1) by (simp add: latch_inv_def tls_failed_append)
  have last: "\<not> tls_failed C ?rs (length rs)"
    using assms(2) by (simp add: tls_failed_def)
  have a: "latched C ?rs"
    unfolding latched_def
  proof (intro allI impI)
    fix j i
    assume j: "j < length ?rs" and i: "i < j" and t: "tls_failed C ?rs i"
    show "\<not> req_verify (?rs ! j)"
    proof (cases "j < length rs")
      case True
      with i t assms(1) show ?thesis
        by (simp add: latch_inv_def latched_def tls_failed_append nth_append)
    next
      case False
      with j have "j = length rs" by simp
      with i t old show ?thesis by simp
    qed
  qed
  have b: "\<forall>i < length ?rs. tls_failed C ?rs i \<longrightarrow> \<not> v"
    using old last by (auto simp: less_Suc_eq)
  from a b show ?thesis by (simp add: latch_inv_def)
qed

lemma latch_inv_two:
  assumes "latch_inv C rs v"
  shows "latch_inv C (rs @ [\<lparr>req_url = url, req_verify = v, req_retry = False\<rparr>,
      \<lparr>req_url = url, req_verify = False, req_retry = True\<rparr>]) False"
proof -
  let ?rs = "rs @ [\<lparr>req_url = url, req_verify = v, req_retry = False\<rparr>,
      \<lparr>req_url = url, req_verify = False, req_retry = True\<rparr>]"
  have old: "\<And>i. i < length rs \<Longrightarrow> tls_failed C ?rs i \<Longrightarrow> \<not> v"
    using assms(1) by (simp add: latch_inv_def tls_failed_append)
  have "latched C ?rs"
    unfolding latched_def
  proof (intro allI impI)
    fix j i
    assume j: "j < length ?rs" and i: "i < j" and t: "tls_failed C ?rs i"
    consider "j < length rs" | "j = length rs" | "j = Suc (length rs)"
      using j by fastforce
    then show "\<not> req_verify (?rs ! j)"
    proof cases
      case 1
      with i t assms(1) show ?thesis
        by (simp add: latch_inv_def latched_def tls_failed_append nth_append)
    next
      case 2
      with i t old show ?thesis by simp
    next
      case 3
      then show ?thesis by (simp add: nth_append)
    qed
  qed
  then show ?thesis by (simp add: latch_inv_def)
qed

lemma latch_inv_after_fetch:
  assumes "latch_inv C (requests s) (verify s)"
  shows "latch_inv C (requests (after_fetch C url s)) (verify (after_fetch C url s))"
proof (cases "first_answer C url s = SSLError")
  case True
  with latch_inv_two [OF assms, of url] show ?thesis
    by (simp add: after_fetch_eq first_request_def retry_request_def)
next
  case False
  then have "net C (length (requests s)) url (verify s) \<noteq> SSLError"
    by (simp add: first_answer_def)
  from latch_inv_one [OF assms this] False show ?thesis
    by (simp add: after_fetch_eq first_request_def)
qed

lemma crawl_loop_latch_inv:
  assumes "latch_inv C (requests s) (verify s)"
  shows "latch_inv C (requests (final_state (crawl_loop C limit s)))
           (verify (final_state (crawl_loop C limit s)))"
proof (rule crawl_loop_invariant [where Inv = "\<lambda>t. latch_inv C (requests t) (verify t)"])
  show "latch_inv C (requests s) (verify s)" by (rule assms)
next
  fix t :: crawl_state and url rest
  assume inv: "latch_inv C (requests t) (verify t)"
  let ?t = "t\<lparr>queue := rest, passes := Suc (passes t)\<rparr>"
  let ?f = "final_state (iteration C limit url ?t)"
  from inv have inv': "latch_inv C (requests ?t) (verify ?t)" by simp
  show "latch_inv C (requests ?f) (verify ?f)"
  proof (cases "url |\<in>| seen ?t")
    case True
    with inv' show ?thesis by (simp add: iteration_seen_before)
  next
    case False
    from iteration_final [OF False, of C limit] obtain qu rs where
      f: "?f = (after_fetch C url ?t)\<lparr>queue := qu, results := rs\<rparr>" by blast
    from latch_inv_after_fetch [OF inv', of url] show ?thesis
      unfolding f by simp
  qed
qed

lemma crawl_loop_verify_off:
  assumes "\<not> verify s"
  shows "\<not> verify (final_state (crawl_loop C limit s))"
proof (rule crawl_loop_invariant [where Inv = "\<lambda>t. \<not> verify t"])
  show "\<not> verify s" by (rule assms)
next
  fix t :: crawl_state and url rest
  assume off: "\<not> verify t"
  let ?t = "t\<lparr>queue := rest, passes := Suc (passes t)\<rparr>"
  let ?f = "final_state (iteration C limit url ?t)"
  show "\<not> verify ?f"
  proof (cases "url |\<in>| seen ?t")
    case True
    with off show ?thesis by (simp add: iteration_seen_before)
  next
    case False
    from iteration_final [OF False, of C limit] obtain qu rs where
      f: "?f = (after_fetch C url ?t)\<lparr>queue := qu, results := rs\<rparr>" by blast
    from off show ?thesis unfolding f by (simp add: after_fetch_eq)
  qed
qed

lemma iteration_after_tls_failure:
  assumes "url |\<notin>| seen s" and "first_answer C url s = SSLError"
  shows "iteration C limit url s =
     (case page_of (retry_answer C url s) of
        None \<Rightarrow> Inr (after_fetch C url s)
      | Some (st, ct, soup) \<Rightarrow>
          if st \<noteq> 200 \<or> \<not> contains ct ''text/html'' then Inr (after_fetch C url s)
          else process_page C limit url soup (after_fetch C url s))"
proof -
  let ?s = "s\<lparr>seen := finsert url (seen s)\<rparr>"
  from assms(2) have "first_answer C url ?s = SSLError" by (simp add: first_answer_def)
  from fetch_tls_failure [OF this]
  have "fetch C url ?s = (page_of (retry_answer C url s), after_fetch C url s)"
    by (simp add: after_fetch_def retry_answer_def)
  with assms(1) show ?thesis
    by (simp add: iteration_def split: option.splits)
qed

lemma iteration_without_tls_failure:
  assumes "url |\<notin>| seen s" and "first_answer C url s \<noteq> SSLError"
  shows "iteration C limit url s =
     (case page_of (first_answer C url s) of
        None \<Rightarrow> Inr (after_fetch C url s)
      | Some (st, ct, soup) \<Rightarrow>
          if st \<noteq> 200 \<or> \<not> contains ct ''text/html'' then Inr (after_fetch C url s)
          else process_page C limit url soup (after_fetch C url s))"
proof -
  let ?s = "s\<lparr>seen := finsert url (seen s)\<rparr>"
  from assms(2) have "first_answer C url ?s \<noteq> SSLError" by (simp add: first_answer_def)
  from fetch_no_tls_failure [OF this]
  have "fetch C url ?s = (page_of (first_answer C url s), after_fetch C url s)"
    by (simp add: after_fetch_def first_answer_def)
  with assms(1) show ?thesis
    by (simp add: iteration_def split: option.splits)
qed

subsection \<open>The crawl\<close>

lemma staff_site_requests:
  "requests (final_state (crawl staff_site True None)) =
     [\<lparr>req_url = ''https://example.edu/'', req_verify = True, req_retry = False\<rparr>,
      \<lparr>req_url = ''https://example.edu/staff/b'', req_verify = True, req_retry = False\<rparr>,
      \<lparr>req_url = ''https://example.edu/staff/a'', req_verify = True, req_retry = False\<rparr>]"
  by code_simp

lemma staff_site_crawl:
  "map req_url (requests (final_state (crawl staff_site True None))) =
     [''https://example.edu/'', ''https://example.edu/staff/b'', ''https://example.edu/staff/a'']
   \<and> fetched (final_state (crawl staff_site True None)) =
     [''https://example.edu/'', ''https://example.edu/staff/b'', ''https://example.edu/staff/a'']"
  by (simp add: fetched_def staff_site_requests)

lemma staff_links_relevant:
  "is_potential_relevant ''https://example.edu/staff/a''
   \<and> is_potential_relevant ''https://example.edu/staff/b''
   \<and> \<not> is_potential_relevant ''https://example.edu/news''
   \<and> get_links absolute_lib ''example.edu'' staff_page ''https://example.edu/'' =
       Inr [''https://example.edu/staff/a'', ''https://example.edu/staff/b'']"
  by code_simp

text \<open>
  C1 (no URL is fetched twice). \<open>fetched\<close> lists the URLs of the first requests, in the
  order in which they were sent; the one retry after a TLS failure belongs to the fetch
  it repeats. In every crawl the list has no repetition. A URL that is in the visited
  set when it leaves the queue is skipped: the state stays as it is and no request is
  sent. Any other URL is put into the visited set and then requested. The visited set
  only grows, in one pass as in the whole loop.
\<close>

theorem no_url_fetched_twice:
  "distinct (fetched (final_state (crawl C v limit)))
   \<and> (url |\<in>| seen s \<longrightarrow> iteration C lim url s = Inr s)
   \<and> (url |\<notin>| seen s \<longrightarrow>
        seen (final_state (iteration C lim url s)) = finsert url (seen s)
        \<and> fetched (final_state (iteration C lim url s)) = fetched s @ [url])
   \<and> seen s |\<subseteq>| seen (final_state (iteration C lim url s))
   \<and> seen s |\<subseteq>| seen (final_state (crawl_loop C lim s))"
proof -
  have "distinct (fetched (init_state (start_url C) v))"
    and "fset_of_list (fetched (init_state (start_url C) v)) |\<subseteq>| seen (init_state (start_url C) v)"
    by (simp_all add: fetched_def init_state_def)
  then have a: "distinct (fetched (final_state (crawl C v limit)))"
    unfolding crawl_def by (rule crawl_loop_fetched_distinct)
  have b: "url |\<in>| seen s \<longrightarrow> iteration C lim url s = Inr s"
    by (simp add: iteration_seen_before)
  have c: "url |\<notin>| seen s \<longrightarrow>
        seen (final_state (iteration C lim url s)) = finsert url (seen s)
        \<and> fetched (final_state (iteration C lim url s)) = fetched s @ [url]"
    using iteration_new_url(1,2) by blast
  from a b c iteration_seen_grows [of s C lim url] crawl_loop_seen_grows [of s C lim]
  show ?thesis by blast
qed

theorem no_url_fetched_twice_witness:
  "fetched (final_state (crawl staff_site True None)) =
     [''https://example.edu/'', ''https://example.edu/staff/b'', ''https://example.edu/staff/a'']
   \<and> distinct [''https://example.edu/'', ''https://example.edu/staff/b'', ''https://example.edu/staff/a'']
   \<and> ''https://example.edu/'' |\<notin>| seen (init_state ''https://example.edu/'' True)
   \<and> fetched (final_state (iteration staff_site 10 ''https://example.edu/''
        (init_state ''https://example.edu/'' True))) = [''https://example.edu/'']
   \<and> ''https://example.edu/'' |\<in>| seen ((init_state ''https://example.edu/'' True)\<lparr>seen := {|''https://example.edu/''|}\<rparr>)
   \<and> iteration staff_site 10 ''https://example.edu/''
        ((init_state ''https://example.edu/'' True)\<lparr>seen := {|''https://example.edu/''|}\<rparr>)
      = Inr ((init_state ''https://example.edu/'' True)\<lparr>seen := {|''https://example.edu/''|}\<rparr>)"
proof -
  note t1 = no_url_fetched_twice [of staff_site True None "''https://example.edu/''"
      "init_state ''https://example.edu/'' True" 10]
  note t2 = no_url_fetched_twice [of staff_site True None "''https://example.edu/''"
      "(init_state ''https://example.edu/'' True)\<lparr>seen := {|''https://example.edu/''|}\<rparr>" 10]
  have a: "''https://example.edu/'' |\<notin>| seen (init_state ''https://example.edu/'' True)"
    by (simp add: init_state_def)
  have b: "''https://example.edu/'' |\<in>| seen ((init_state ''https://example.edu/'' True)\<lparr>seen := {|''https://example.edu/''|}\<rparr>)"
    by simp
  have c: "fetched (init_state ''https://example.edu/'' True) = []"
    by (simp add: fetched_def init_state_def)
  from t1 a c have d: "fetched (final_state (iteration staff_site 10 ''https://example.edu/''
        (init_state ''https://example.edu/'' True))) = [''https://example.edu/'']"
    by simp
  from t2 b have e: "iteration staff_site 10 ''https://example.edu/''
        ((init_state ''https://example.edu/'' True)\<lparr>seen := {|''https://example.edu/''|}\<rparr>)
      = Inr ((init_state ''https://example.edu/'' True)\<lparr>seen := {|''https://example.edu/''|}\<rparr>)"
    by blast
  from t1 have "distinct (fetched (final_state (crawl staff_site True None)))" by blast
  with staff_site_crawl have f: "distinct [''https://example.edu/'', ''https://example.edu/staff/b'', ''https://example.edu/staff/a'']"
    by simp
  from staff_site_crawl a b d e f show ?thesis by blast
qed

text \<open>
  C2 (two lanes). As the claim states it, it fails for the relevant lane: a relevant
  link goes to the front of the queue, so of two relevant links the one enqueued later
  leaves the queue first. The start page links to \<open>staff/a\<close> and then to \<open>staff/b\<close>;
  both pass the URL-level test; the crawl requests \<open>staff/b\<close> before \<open>staff/a\<close>.
\<close>

theorem relevant_lane_reversed:
  "is_potential_relevant ''https://example.edu/staff/a''
   \<and> is_potential_relevant ''https://example.edu/staff/b''
   \<and> get_links absolute_lib ''example.edu'' staff_page ''https://example.edu/'' =
       Inr [''https://example.edu/staff/a'', ''https://example.edu/staff/b'']
   \<and> map req_url (requests (final_state (crawl staff_site True None))) =
       [''https://example.edu/'', ''https://example.edu/staff/b'', ''https://example.edu/staff/a'']"
  using staff_site_crawl staff_links_relevant by simp

text \<open>
  C2, amended. The links of a page that are accepted (not visited, and within the
  budget) enter the queue like this: the relevant ones in front of it, the last one
  first; the others behind it, in their order. So the relevant lane is last-in
  first-out and the other lane first-in first-out. A queue in which no relevant URL
  stands behind another URL stays so when links are enqueued and when its head is taken,
  hence through the whole loop: every relevant URL in the frontier leaves it before
  every other URL in it.
\<close>

theorem frontier_lanes:
  "enqueue_links sn lim qu links =
     rev (filter is_potential_relevant (accepted sn lim (length qu) links)) @ qu
       @ filter (\<lambda>l. \<not> is_potential_relevant l) (accepted sn lim (length qu) links)
   \<and> (lanes qu \<longrightarrow> lanes (enqueue_links sn lim qu links))
   \<and> (lanes (u # qu) \<longrightarrow> lanes qu)
   \<and> lanes [u]
   \<and> (lanes (queue s) \<longrightarrow> lanes (queue (final_state (crawl_loop C lim s))))"
proof -
  have "lanes [u]" by (simp add: lanes_def)
  with enqueue_links_lanes_eq [of sn lim qu links] lanes_enqueue_links [of qu sn lim links]
    lanes_tl [of u qu] crawl_loop_lanes [of s C lim]
  show ?thesis by blast
qed

theorem frontier_lanes_witness:
  "lanes [''https://example.edu/staff/x'', ''https://example.edu/news'']
   \<and> accepted {||} 10 2 [''https://example.edu/staff/a'', ''https://example.edu/contact'',
        ''https://example.edu/staff/b'']
      = [''https://example.edu/staff/a'', ''https://example.edu/contact'', ''https://example.edu/staff/b'']
   \<and> enqueue_links {||} 10 [''https://example.edu/staff/x'', ''https://example.edu/news'']
        [''https://example.edu/staff/a'', ''https://example.edu/contact'', ''https://example.edu/staff/b'']
      = [''https://example.edu/staff/b'', ''https://example.edu/staff/a'', ''https://example.edu/staff/x'',
         ''https://example.edu/news'', ''https://example.edu/contact'']
   \<and> lanes [''https://example.edu/staff/b'', ''https://example.edu/staff/a'', ''https://example.edu/staff/x'',
         ''https://example.edu/news'', ''https://example.edu/contact'']
   \<and> lanes [''https://example.edu/news'']
   \<and> lanes (queue (final_state (crawl_loop staff_site 10 (init_state ''https://example.edu/'' True))))"
proof -
  note t = frontier_lanes [of "{||}" 10 "[''https://example.edu/staff/x'', ''https://example.edu/news'']"
      "[''https://example.edu/staff/a'', ''https://example.edu/contact'', ''https://example.edu/staff/b'']"
      "''https://example.edu/staff/x''" "init_state ''https://example.edu/'' True" staff_site]
  note t2 = frontier_lanes [of "{||}" 10 "[''https://example.edu/news'']" "[]"
      "''https://example.edu/staff/x''" "init_state ''https://example.edu/'' True" staff_site]
  have a: "lanes [''https://example.edu/staff/x'', ''https://example.edu/news'']"
    by code_simp
  have b: "accepted {||} 10 2 [''https://example.edu/staff/a'', ''https://example.edu/contact'',
        ''https://example.edu/staff/b'']
      = [''https://example.edu/staff/a'', ''https://example.edu/contact'', ''https://example.edu/staff/b'']"
    by (simp add: accepted_def fcard_fempty)
  have c: "enqueue_links {||} 10 [''https://example.edu/staff/x'', ''https://example.edu/news'']
        [''https://example.edu/staff/a'', ''https://example.edu/contact'', ''https://example.edu/staff/b'']
      = [''https://example.edu/staff/b'', ''https://example.edu/staff/a'', ''https://example.edu/staff/x'',
         ''https://example.edu/news'', ''https://example.edu/contact'']"
    by code_simp
  from t a have "lanes (enqueue_links {||} 10 [''https://example.edu/staff/x'', ''https://example.edu/news'']
        [''https://example.edu/staff/a'', ''https://example.edu/contact'', ''https://example.edu/staff/b''])"
    by blast
  with c have d: "lanes [''https://example.edu/staff/b'', ''https://example.edu/staff/a'', ''https://example.edu/staff/x'',
         ''https://example.edu/news'', ''https://example.edu/contact'']"
    by simp
  from t2 a have e: "lanes [''https://example.edu/news'']" by blast
  have "lanes (queue (init_state ''https://example.edu/'' True))"
    by (simp add: init_state_def lanes_def)
  with t have f: "lanes (queue (final_state (crawl_loop staff_site 10 (init_state ''https://example.edu/'' True))))"
    by blast
  from a b c d e f show ?thesis by blast
qed

text \<open>
  C9 (the loop stops). \<open>crawl_loop\<close> is defined by recursion on the pair of the pages
  left in the budget and the length of the queue, so it returns for every network, every
  document and every limit. The number of passes through the loop body is at most
  \<open>L * (L + 1) + 1\<close> for the limit \<open>L\<close> in force. The visited set never has more than
  \<open>L\<close> URLs (none for a limit below 1, which lets no pass happen), and visited set
  and queue together never more than \<open>L\<close> (one, the start URL, for a limit below 1). A
  pass either finds its URL in the visited set and leaves the state as the removal from
  the queue made it, or adds the URL to the visited set. Enqueuing adds nothing once
  visited set and queue together reach the limit, and never takes them beyond it.
\<close>

theorem crawl_stops_within_budget:
  "passes (final_state (crawl C v limit)) \<le> pass_bound (effective_limit limit (max_pages C))
   \<and> int (fcard (seen (final_state (crawl C v limit)))) \<le> max 0 (effective_limit limit (max_pages C))
   \<and> int (fcard (seen (final_state (crawl C v limit)))) + int (length (queue (final_state (crawl C v limit))))
        \<le> max 1 (effective_limit limit (max_pages C))
   \<and> passes (final_state (iteration C lim url s)) = passes s
   \<and> (url |\<in>| seen s \<longrightarrow> iteration C lim url s = Inr s)
   \<and> (url |\<notin>| seen s \<longrightarrow> seen (final_state (iteration C lim url s)) = finsert url (seen s))
   \<and> (lim \<le> int (fcard sn) + int (length qu) \<longrightarrow> enqueue_links sn lim qu links = qu)
   \<and> int (fcard sn) + int (length (enqueue_links sn lim qu links))
        \<le> max lim (int (fcard sn) + int (length qu))"
proof -
  let ?L = "effective_limit limit (max_pages C)"
  let ?s = "init_state (start_url C) v"
  let ?f = "final_state (crawl C v limit)"
  have i1: "fcard (seen ?s) + length (queue ?s) \<le> max 1 (nat ?L)"
    and i2: "int (fcard (seen ?s)) \<le> max 0 ?L"
    by (simp_all add: init_state_def fcard_fempty)
  from crawl_loop_budget [OF i1 i2, of C]
  have b1: "passes ?f + potential ?L ?f \<le> passes ?s + potential ?L ?s"
    and b2: "int (fcard (seen ?f)) \<le> max 0 ?L"
    and b3: "fcard (seen ?f) + length (queue ?f) \<le> max 1 (nat ?L)"
    by (simp_all add: crawl_def)
  have "passes ?s + potential ?L ?s = pass_bound ?L"
    by (simp add: init_state_def potential_def pass_bound_def fcard_fempty)
  with b1 have a: "passes ?f \<le> pass_bound ?L" by simp
  from b3 have "int (fcard (seen ?f) + length (queue ?f)) \<le> int (max 1 (nat ?L))"
    by (simp only: of_nat_le_iff)
  moreover have "int (max 1 (nat ?L)) = max 1 ?L"
    by arith
  ultimately have c: "int (fcard (seen ?f)) + int (length (queue ?f)) \<le> max 1 ?L"
    by simp
  have d: "passes (final_state (iteration C lim url s)) = passes s"
    by (cases "url |\<in>| seen s") (simp_all add: iteration_seen_before iteration_new_url(3))
  have e: "url |\<in>| seen s \<longrightarrow> iteration C lim url s = Inr s"
    by (simp add: iteration_seen_before)
  have f: "url |\<notin>| seen s \<longrightarrow> seen (final_state (iteration C lim url s)) = finsert url (seen s)"
    using iteration_new_url(1) by blast
  have g: "lim \<le> int (fcard sn) + int (length qu) \<longrightarrow> enqueue_links sn lim qu links = qu"
    using enqueue_links_stop by blast
  from a b2 c d e f g enqueue_links_bound [of sn lim qu links] show ?thesis by blast
qed

theorem crawl_stops_within_budget_witness:
  "pass_bound (effective_limit None (max_pages staff_site)) = 111
   \<and> passes (final_state (crawl staff_site True None)) \<le> 111
   \<and> ''https://example.edu/'' |\<notin>| seen (init_state ''https://example.edu/'' True)
   \<and> seen (final_state (iteration staff_site 2 ''https://example.edu/'' (init_state ''https://example.edu/'' True)))
       = {|''https://example.edu/''|}
   \<and> ''https://example.edu/'' |\<in>| seen ((init_state ''https://example.edu/'' True)\<lparr>seen := {|''https://example.edu/''|}\<rparr>)
   \<and> iteration staff_site 2 ''https://example.edu/''
        ((init_state ''https://example.edu/'' True)\<lparr>seen := {|''https://example.edu/''|}\<rparr>)
      = Inr ((init_state ''https://example.edu/'' True)\<lparr>seen := {|''https://example.edu/''|}\<rparr>)
   \<and> (2::int) \<le> int (fcard {|''https://example.edu/''|}) + int (length [''https://example.edu/staff/a''])
   \<and> enqueue_links {|''https://example.edu/''|} 2 [''https://example.edu/staff/a''] [''https://example.edu/staff/b'']
       = [''https://example.edu/staff/a'']"
proof -
  note t1 = crawl_stops_within_budget [of staff_site True None 2 "''https://example.edu/''"
      "init_state ''https://example.edu/'' True" "{|''https://example.edu/''|}"
      "[''https://example.edu/staff/a'']" "[''https://example.edu/staff/b'']"]
  note t2 = crawl_stops_within_budget [of staff_site True None 2 "''https://example.edu/''"
      "(init_state ''https://example.edu/'' True)\<lparr>seen := {|''https://example.edu/''|}\<rparr>"
      "{|''https://example.edu/''|}" "[''https://example.edu/staff/a'']" "[''https://example.edu/staff/b'']"]
  have a: "pass_bound (effective_limit None (max_pages staff_site)) = 111"
    by (simp add: pass_bound_def effective_limit_def staff_site_def)
  from t1 a have a': "passes (final_state (crawl staff_site True None)) \<le> 111" by simp
  have b: "''https://example.edu/'' |\<notin>| seen (init_state ''https://example.edu/'' True)"
    by (simp add: init_state_def)
  have c: "''https://example.edu/'' |\<in>| seen ((init_state ''https://example.edu/'' True)\<lparr>seen := {|''https://example.edu/''|}\<rparr>)"
    by simp
  have d: "(2::int) \<le> int (fcard {|''https://example.edu/''|}) + int (length [''https://example.edu/staff/a''])"
    by (simp add: fcard_finsert_if fcard_fempty)
  from t1 b have e: "seen (final_state (iteration staff_site 2 ''https://example.edu/''
      (init_state ''https://example.edu/'' True))) = {|''https://example.edu/''|}"
    by (simp add: init_state_def)
  from t2 c have f: "iteration staff_site 2 ''https://example.edu/''
        ((init_state ''https://example.edu/'' True)\<lparr>seen := {|''https://example.edu/''|}\<rparr>)
      = Inr ((init_state ''https://example.edu/'' True)\<lparr>seen := {|''https://example.edu/''|}\<rparr>)"
    by blast
  from t1 d have g: "enqueue_links {|''https://example.edu/''|} 2 [''https://example.edu/staff/a''] [''https://example.edu/staff/b'']
       = [''https://example.edu/staff/a'']"
    by blast
  from a a' b c d e f g show ?thesis by blast
qed

text \<open>
  C6 (TLS failure: downgrade, one retry, latch). When the first request for a URL fails
  with a TLS error, the fetch switches verification off, sends exactly one more request
  for the same URL, and whatever that request gives, verification stays off in the state
  the fetch leaves; a first request that does not fail so is not repeated and changes no
  mode. Verification that is off is off at the end of the loop, and in the history of
  every crawl each request after a TLS failure was sent with verification off. If the
  retry gives no response the pass ends with the URL visited and nothing else changed,
  and the loop goes on; if it gives an HTML page with status 200 the page is processed
  by the same \<open>process_page\<close> as a page that came at the first request.
\<close>

theorem tls_retry_latch:
  "(first_answer C url s = SSLError \<longrightarrow>
      fetch C url s = (page_of (retry_answer C url s),
        s\<lparr>verify := False, requests := requests s @ [first_request url s, retry_request url]\<rparr>))
   \<and> (first_answer C url s \<noteq> SSLError \<longrightarrow>
      fetch C url s = (page_of (first_answer C url s),
        s\<lparr>requests := requests s @ [first_request url s]\<rparr>))
   \<and> (\<not> verify s \<longrightarrow> \<not> verify (final_state (crawl_loop C lim s)))
   \<and> latched C (requests (final_state (crawl C v limit)))
   \<and> (url |\<notin>| seen s \<and> first_answer C url s = SSLError \<and> page_of (retry_answer C url s) = None \<longrightarrow>
      iteration C lim url s = Inr (s\<lparr>seen := finsert url (seen s), verify := False,
        requests := requests s @ [first_request url s, retry_request url]\<rparr>))
   \<and> (url |\<notin>| seen s \<and> first_answer C url s = SSLError
        \<and> retry_answer C url s = Response 200 ct soup \<and> contains ct ''text/html'' \<longrightarrow>
      iteration C lim url s = process_page C lim url soup
        (s\<lparr>seen := finsert url (seen s), verify := False,
           requests := requests s @ [first_request url s, retry_request url]\<rparr>))
   \<and> (url |\<notin>| seen s \<and> first_answer C url s = Response 200 ct soup \<and> contains ct ''text/html'' \<longrightarrow>
      iteration C lim url s = process_page C lim url soup
        (s\<lparr>seen := finsert url (seen s), requests := requests s @ [first_request url s]\<rparr>))"
proof -
  have a: "first_answer C url s = SSLError \<longrightarrow>
      fetch C url s = (page_of (retry_answer C url s),
        s\<lparr>verify := False, requests := requests s @ [first_request url s, retry_request url]\<rparr>)"
    using fetch_tls_failure by blast
  have b: "first_answer C url s \<noteq> SSLError \<longrightarrow>
      fetch C url s = (page_of (first_answer C url s),
        s\<lparr>requests := requests s @ [first_request url s]\<rparr>)"
    using fetch_no_tls_failure by blast
  have c: "\<not> verify s \<longrightarrow> \<not> verify (final_state (crawl_loop C lim s))"
    using crawl_loop_verify_off by blast
  have "latch_inv C (requests (init_state (start_url C) v)) (verify (init_state (start_url C) v))"
    by (simp add: latch_inv_def latched_def init_state_def)
  then have d: "latched C (requests (final_state (crawl C v limit)))"
    unfolding crawl_def using crawl_loop_latch_inv latch_inv_def by blast
  have e: "url |\<notin>| seen s \<and> first_answer C url s = SSLError \<and> page_of (retry_answer C url s) = None \<longrightarrow>
      iteration C lim url s = Inr (s\<lparr>seen := finsert url (seen s), verify := False,
        requests := requests s @ [first_request url s, retry_request url]\<rparr>)"
    by (simp add: iteration_after_tls_failure after_fetch_eq)
  have f: "url |\<notin>| seen s \<and> first_answer C url s = SSLError
        \<and> retry_answer C url s = Response 200 ct soup \<and> contains ct ''text/html'' \<longrightarrow>
      iteration C lim url s = process_page C lim url soup
        (s\<lparr>seen := finsert url (seen s), verify := False,
           requests := requests s @ [first_request url s, retry_request url]\<rparr>)"
    by (simp add: iteration_after_tls_failure after_fetch_eq page_of_def)
  have g: "url |\<notin>| seen s \<and> first_answer C url s = Response 200 ct soup \<and> contains ct ''text/html'' \<longrightarrow>
      iteration C lim url s = process_page C lim url soup
        (s\<lparr>seen := finsert url (seen s), requests := requests s @ [first_request url s]\<rparr>)"
    by (simp add: iteration_without_tls_failure after_fetch_eq page_of_def)
  from a b c d e f g show ?thesis by blast
qed

theorem tls_retry_latch_witness:
  "''https://example.edu/'' |\<notin>| seen (init_state ''https://example.edu/'' True)
   \<and> first_answer tls_site ''https://example.edu/'' (init_state ''https://example.edu/'' True) = SSLError
   \<and> retry_answer tls_site ''https://example.edu/'' (init_state ''https://example.edu/'' True)
       = Response 200 ''text/html; charset=utf-8'' staff_page
   \<and> contains ''text/html; charset=utf-8'' ''text/html''
   \<and> iteration tls_site 10 ''https://example.edu/'' (init_state ''https://example.edu/'' True)
       = process_page tls_site 10 ''https://example.edu/'' staff_page
           ((init_state ''https://example.edu/'' True)\<lparr>seen := finsert ''https://example.edu/''
                (seen (init_state ''https://example.edu/'' True)), verify := False,
              requests := requests (init_state ''https://example.edu/'' True)
                @ [first_request ''https://example.edu/'' (init_state ''https://example.edu/'' True),
                   retry_request ''https://example.edu/'']\<rparr>)
   \<and> first_answer dead_site ''https://example.edu/'' (init_state ''https://example.edu/'' True) = SSLError
   \<and> page_of (retry_answer dead_site ''https://example.edu/'' (init_state ''https://example.edu/'' True)) = None
   \<and> iteration dead_site 10 ''https://example.edu/'' (init_state ''https://example.edu/'' True)
       = Inr \<lparr>seen = {|''https://example.edu/''|}, queue = [''https://example.edu/''], results = [],
              verify = False,
              requests = [\<lparr>req_url = ''https://example.edu/'', req_verify = True, req_retry = False\<rparr>,
                          \<lparr>req_url = ''https://example.edu/'', req_verify = False, req_retry = True\<rparr>],
              passes = 0\<rparr>
   \<and> first_answer staff_site ''https://example.edu/'' (init_state ''https://example.edu/'' True)
       = Response 200 ''text/html'' staff_page
   \<and> fetch staff_site ''https://example.edu/'' (init_state ''https://example.edu/'' True)
       = (Some (200, ''text/html'', staff_page),
          (init_state ''https://example.edu/'' True)\<lparr>requests :=
             [\<lparr>req_url = ''https://example.edu/'', req_verify = True, req_retry = False\<rparr>]\<rparr>)
   \<and> \<not> verify ((init_state ''https://example.edu/'' True)\<lparr>verify := False\<rparr>)
   \<and> \<not> verify (final_state (crawl_loop staff_site 10 ((init_state ''https://example.edu/'' True)\<lparr>verify := False\<rparr>)))
   \<and> latched tls_site (requests (final_state (crawl tls_site True None)))"
proof -
  let ?u = "''https://example.edu/''"
  let ?s = "init_state ?u True"
  note t1 = tls_retry_latch [of tls_site ?u ?s 10 True None "''text/html; charset=utf-8''" staff_page]
  note t2 = tls_retry_latch [of dead_site ?u ?s 10 True None "''text/html''" staff_page]
  note t3 = tls_retry_latch [of staff_site ?u ?s 10 True None "''text/html''" staff_page]
  note t4 = tls_retry_latch [of staff_site ?u "?s\<lparr>verify := False\<rparr>" 10 True None "''text/html''" staff_page]
  have a: "?u |\<notin>| seen ?s" by (simp add: init_state_def)
  have b: "first_answer tls_site ?u ?s = SSLError"
    by (simp add: first_answer_def tls_site_def init_state_def)
  have c: "retry_answer tls_site ?u ?s = Response 200 ''text/html; charset=utf-8'' staff_page"
    by (simp add: retry_answer_def tls_site_def)
  have d: "contains ''text/html; charset=utf-8'' ''text/html''" by simp
  from t1 a b c d have e: "iteration tls_site 10 ?u ?s
       = process_page tls_site 10 ?u staff_page
           (?s\<lparr>seen := finsert ?u (seen ?s), verify := False,
              requests := requests ?s @ [first_request ?u ?s, retry_request ?u]\<rparr>)"
    by blast
  have f: "first_answer dead_site ?u ?s = SSLError"
    by (simp add: first_answer_def dead_site_def)
  have g: "page_of (retry_answer dead_site ?u ?s) = None"
    by (simp add: page_of_def retry_answer_def dead_site_def)
  from t2 a f g have "iteration dead_site 10 ?u ?s
       = Inr (?s\<lparr>seen := finsert ?u (seen ?s), verify := False,
           requests := requests ?s @ [first_request ?u ?s, retry_request ?u]\<rparr>)"
    by blast
  then have h: "iteration dead_site 10 ?u ?s
       = Inr \<lparr>seen = {|?u|}, queue = [?u], results = [], verify = False,
              requests = [\<lparr>req_url = ?u, req_verify = True, req_retry = False\<rparr>,
                          \<lparr>req_url = ?u, req_verify = False, req_retry = True\<rparr>],
              passes = 0\<rparr>"
    by (simp add: init_state_def first_request_def retry_request_def)
  have i: "first_answer staff_site ?u ?s = Response 200 ''text/html'' staff_page"
    by (simp add: first_answer_def staff_site_def)
  with t3 have "fetch staff_site ?u ?s
       = (page_of (first_answer staff_site ?u ?s), ?s\<lparr>requests := requests ?s @ [first_request ?u ?s]\<rparr>)"
    by simp
  with i have j: "fetch staff_site ?u ?s
       = (Some (200, ''text/html'', staff_page),
          ?s\<lparr>requests := [\<lparr>req_url = ?u, req_verify = True, req_retry = False\<rparr>]\<rparr>)"
    by (simp add: page_of_def init_state_def first_request_def)
  have k: "\<not> verify (?s\<lparr>verify := False\<rparr>)" by simp
  with t4 have l: "\<not> verify (final_state (crawl_loop staff_site 10 (?s\<lparr>verify := False\<rparr>)))"
    by blast
  from t1 have m: "latched tls_site (requests (final_state (crawl tls_site True None)))" by blast
  from a b c d e f g h i j k l m show ?thesis by blast
qed

end
